theory Spec2Isabelle
  imports Main "HOL-Library.AList"
begin

section \<open>Strings and JavaScript library functions used by the sources\<close>

text \<open>
  A JavaScript string is modelled as a \<open>string\<close> (a list of \<open>char\<close>): one \<open>char\<close>
  stands for one code unit, so the model covers the code units below 256.
  \<open>length\<close>, \<open>take\<close> and \<open>drop\<close> are \<open>.length\<close>, \<open>.slice(0, n)\<close> and \<open>.slice(n)\<close>
  for non-negative \<open>n\<close>.
\<close>

abbreviation NL :: char where
  "NL \<equiv> CHR 0x0A"

text \<open>\<open>s.split(c)\<close> for a one-character separator: never returns the empty array.\<close>

fun splitOn :: "char \<Rightarrow> string \<Rightarrow> string list" where
  "splitOn c [] = [[]]"
| "splitOn c (x # xs) =
     (if x = c then [] # splitOn c xs
      else (case splitOn c xs of
              [] \<Rightarrow> [[x]]
            | l # ls \<Rightarrow> (x # l) # ls))"

text \<open>\<open>xs.join(sep)\<close> on an array of strings.\<close>

fun joinWith :: "string \<Rightarrow> string list \<Rightarrow> string" where
  "joinWith sep [] = []"
| "joinWith sep [x] = x"
| "joinWith sep (x # y # ys) = x @ sep @ joinWith sep (y # ys)"

text \<open>
  \<open>Array.prototype.slice(a, b)\<close>: a negative argument counts from the end, and both
  are clamped to \<open>0 .. length\<close>.
\<close>

definition relIndex :: "nat \<Rightarrow> int \<Rightarrow> nat" where
  "relIndex n k = (if k < 0 then nat (max 0 (int n + k)) else min n (nat k))"

definition slice :: "'a list \<Rightarrow> int \<Rightarrow> int \<Rightarrow> 'a list" where
  "slice xs a b =
     (let from = relIndex (length xs) a;
          to = relIndex (length xs) b
      in take (to - from) (drop from xs))"

section \<open>Line-range extraction (src/imports.ts, extractLines)\<close>

definition extractLines :: "string \<Rightarrow> int \<Rightarrow> int \<Rightarrow> string" where
  "extractLines content start end =
     (let lines = splitOn NL content;
          startIdx = max 0 (start - 1);
          endIdx = min (int (length lines)) end
      in joinWith [NL] (slice lines startIdx endIdx))"

section \<open>Injection of resolved imports (src/imports.ts, injectResolvedImports)\<close>

text \<open>
  A resolved import: the position of the directive in the body, the matched text
  (\<open>import.full\<close>) and the resolved content that replaces it.
\<close>

record resolved =
  r_index :: nat
  r_full :: string
  r_content :: string

text \<open>
  One iteration of the loop:
  \<open>result.slice(0, imp.index) + replacement + result.slice(imp.index + imp.full.length)\<close>.
\<close>

definition splice :: "string \<Rightarrow> resolved \<Rightarrow> string" where
  "splice result r =
     take (r_index r) result @ r_content r @ drop (r_index r + length (r_full r)) result"

text \<open>
  \<open>[...resolved].sort((a, b) => b.import.index - a.import.index)\<close>: a stable sort,
  descending by index.
\<close>

definition sortedResolved :: "resolved list \<Rightarrow> resolved list" where
  "sortedResolved rs = sort_key (\<lambda>r. - int (r_index r)) rs"

definition injectResolvedImports :: "string \<Rightarrow> resolved list \<Rightarrow> string" where
  "injectResolvedImports content rs = foldl splice content (sortedResolved rs)"

text \<open>The end of the span a directive occupies in the body.\<close>

definition r_end :: "resolved \<Rightarrow> nat" where
  "r_end r = r_index r + length (r_full r)"

section \<open>Front-matter values\<close>

text \<open>
  A front-matter value as the YAML loader and the merging code produce it. Numbers are
  kept abstract (type \<open>'n\<close>); \<open>String(n)\<close> for a number is the parameter \<open>ns\<close> of
  the functions below. An object is the list of its own enumerable properties in
  \<open>Object.entries\<close> order.
\<close>

datatype 'n jsval =
    VUndefined
  | VNull
  | VBool bool
  | VNum 'n
  | VStr string
  | VList "'n jsval list"
  | VMap "(string \<times> 'n jsval) list"

type_synonym 'n frontmatter = "(string \<times> 'n jsval) list"

text \<open>
  \<open>String(v)\<close>. An array is its elements joined by commas, where \<open>null\<close> and
  \<open>undefined\<close> elements are rendered as the empty string.
\<close>

fun jsString :: "('n \<Rightarrow> string) \<Rightarrow> 'n jsval \<Rightarrow> string" where
  "jsString ns VUndefined = ''undefined''"
| "jsString ns VNull = ''null''"
| "jsString ns (VBool b) = (if b then ''true'' else ''false'')"
| "jsString ns (VNum n) = ns n"
| "jsString ns (VStr s) = s"
| "jsString ns (VList vs) =
     joinWith '','' (map (\<lambda>v. if v = VUndefined \<or> v = VNull then [] else jsString ns v) vs)"
| "jsString ns (VMap m) = ''[object Object]''"

text \<open>\<open>s.startsWith(p)\<close>.\<close>

definition startsWith :: "string \<Rightarrow> string \<Rightarrow> bool" where
  "startsWith p s = (take (length p) s = p)"

text \<open>\<open>key in obj\<close> and \<open>obj.key\<close> (\<open>undefined\<close> for a missing property).\<close>

definition hasKey :: "string \<Rightarrow> 'n frontmatter \<Rightarrow> bool" where
  "hasKey k fm = (k \<in> fst ` set fm)"

definition getProp :: "string \<Rightarrow> 'n frontmatter \<Rightarrow> 'n jsval" where
  "getProp k fm = (case map_of fm k of None \<Rightarrow> VUndefined | Some v \<Rightarrow> v)"

section \<open>Argument compiler (src/command.ts)\<close>

definition SYSTEM_KEYS :: "string set" where
  "SYSTEM_KEYS = {''args''}"

definition isDigit :: "char \<Rightarrow> bool" where
  "isDigit c = (c \<in> set ''0123456789'')"

text \<open>\<open>/^\$\d+$/.test(key)\<close>.\<close>

definition isPositionalKey :: "string \<Rightarrow> bool" where
  "isPositionalKey key =
     (case key of
        [] \<Rightarrow> False
      | c # ds \<Rightarrow> c = CHR ''$'' \<and> ds \<noteq> [] \<and> list_all isDigit ds)"

definition toFlag :: "string \<Rightarrow> string" where
  "toFlag key =
     (if startsWith ''-'' key then key
      else if length key = 1 then ''-'' @ key
      else ''--'' @ key)"

text \<open>
  \<open>typeof value === "object" && value !== null && !Array.isArray(value)\<close>.
\<close>

definition isPlainObject :: "'n jsval \<Rightarrow> bool" where
  "isPlainObject v = (case v of VMap m \<Rightarrow> True | _ \<Rightarrow> False)"

text \<open>
  The body of the loop of buildArgs for one entry of \<open>Object.entries(frontmatter)\<close>:
  \<open>args\<close> is the array built so far, the result is the array after the iteration
  (each \<open>continue\<close> returns it unchanged).
\<close>

definition buildArgsStep ::
  "('n \<Rightarrow> string) \<Rightarrow> string set \<Rightarrow> string list \<Rightarrow> string \<times> 'n jsval \<Rightarrow> string list" where
  "buildArgsStep ns templateVars args kv =
     (let key = fst kv; value = snd kv in
      if key \<in> SYSTEM_KEYS then args
      else if isPositionalKey key then args
      else if startsWith ''$'' key then args
      else if startsWith ''_'' key then args
      else if key \<in> templateVars then args
      else if key = ''env'' \<and> isPlainObject value then args
      else if value = VUndefined \<or> value = VNull \<or> value = VBool False then args
      else if value = VBool True then args @ [toFlag key]
      else (case value of
              VList vs \<Rightarrow> foldl (\<lambda>a v. a @ [toFlag key, jsString ns v]) args vs
            | _ \<Rightarrow> args @ [toFlag key, jsString ns value]))"

definition buildArgs ::
  "('n \<Rightarrow> string) \<Rightarrow> 'n frontmatter \<Rightarrow> string set \<Rightarrow> string list" where
  "buildArgs ns frontmatter templateVars =
     foldl (buildArgsStep ns templateVars) [] frontmatter"

section \<open>Interactive mode (src/config.ts, applyInteractiveMode)\<close>

text \<open>\<open>delete obj.key\<close> on a copy of the object.\<close>

definition deleteKey :: "string \<Rightarrow> 'n frontmatter \<Rightarrow> 'n frontmatter" where
  "deleteKey k fm = filter (\<lambda>kv. fst kv \<noteq> k) fm"

text \<open>
  The adapter registry (src/adapters) is not part of the sources at hand: \<open>getAdapter\<close>
  is a parameter, mapping the command name to the adapter's interactive transform.
\<close>

definition applyInteractiveMode ::
  "(string \<Rightarrow> 'n frontmatter \<Rightarrow> 'n frontmatter) \<Rightarrow> 'n frontmatter \<Rightarrow> string \<Rightarrow> bool
     \<Rightarrow> 'n frontmatter" where
  "applyInteractiveMode getAdapter frontmatter command interactiveFromExternal =
     (let hasInteractiveKey = hasKey ''_interactive'' frontmatter;
          hasIKey = hasKey ''_i'' frontmatter;
          interactiveValue =
            (if hasInteractiveKey then getProp ''_interactive'' frontmatter
             else getProp ''_i'' frontmatter);
          interactiveMode =
            (interactiveFromExternal
             \<or> interactiveValue = VBool True
             \<or> interactiveValue = VStr ''''
             \<or> (hasInteractiveKey \<and> interactiveValue = VNull)
             \<or> (hasIKey \<and> interactiveValue = VNull)
             \<or> (interactiveValue \<noteq> VUndefined \<and> interactiveValue \<noteq> VBool False))
      in if \<not> interactiveMode then frontmatter
         else getAdapter command (deleteKey ''_i'' (deleteKey ''_interactive'' frontmatter)))"

section \<open>Inline commands (src/imports.ts, processCommandInline)\<close>

text \<open>
  White space as \<open>String.prototype.trim\<close> and the pattern class \<open>\s\<close> see it, among
  the code units below 256: tab, line feed, vertical tab, form feed, carriage return,
  space and no-break space.
\<close>

definition isSpace :: "char \<Rightarrow> bool" where
  "isSpace c = (c \<in> {CHR 0x09, CHR 0x0A, CHR 0x0B, CHR 0x0C, CHR 0x0D, CHR 0x20, CHR 0xA0})"

definition trim :: "string \<Rightarrow> string" where
  "trim s = rev (dropWhile isSpace (rev (dropWhile isSpace s)))"

text \<open>\<open>s.includes(sub)\<close>.\<close>

fun strIncludes :: "string \<Rightarrow> string \<Rightarrow> bool" where
  "strIncludes sub [] = (sub = [])"
| "strIncludes sub (c # cs) = (take (length sub) (c # cs) = sub \<or> strIncludes sub cs)"

text \<open>
  \<open>s.replace(/pat/g, rep)\<close> for a pattern that is a literal, non-empty string and a
  replacement without \<open>$\<close>: the occurrences are replaced from left to right, without
  overlap.
\<close>

function replaceAll :: "string \<Rightarrow> string \<Rightarrow> string \<Rightarrow> string" where
  "replaceAll pat rep [] = []"
| "replaceAll pat rep (c # cs) =
     (if pat \<noteq> [] \<and> take (length pat) (c # cs) = pat
      then rep @ replaceAll pat rep (drop (length pat) (c # cs))
      else c # replaceAll pat rep cs)"
  by pat_completeness auto
termination
  by (relation "measure (\<lambda>(pat, rep, s). length s)") (auto simp: neq_Nil_conv)

text \<open>Decimal rendering of an integer, as a template literal renders a number.\<close>

definition digitChar :: "nat \<Rightarrow> char" where
  "digitChar d = ''0123456789'' ! (d mod 10)"

fun showNat :: "nat \<Rightarrow> string" where
  "showNat n = (if n < 10 then [digitChar n] else showNat (n div 10) @ [digitChar (n mod 10)])"

definition showInt :: "int \<Rightarrow> string" where
  "showInt i = (if i < 0 then ''-'' @ showNat (nat (- i)) else showNat (nat i))"

text \<open>
  \<open>MD_FILE_COMMAND_PATTERN.test(command.trim())\<close> with the pattern
  \<open>/^(~?\.?\.?\/)?[^\s]+\.md(\s|$)/\<close>. The characters of the optional prefix are not
  white space, so \<open>[^\s]+\<close> can take them as well: the pattern matches exactly when
  the first white-space-delimited word of the trimmed command ends with \<open>.md\<close> and
  has at least one character before it.
\<close>

definition isMarkdownFileCommand :: "string \<Rightarrow> bool" where
  "isMarkdownFileCommand command =
     (let word = takeWhile (\<lambda>c. \<not> isSpace c) (trim command)
      in 3 < length word \<and> drop (length word - 3) word = ''.md'')"

definition COMMAND_TIMEOUT_MS :: nat where
  "COMMAND_TIMEOUT_MS = 30000"

definition MAX_COMMAND_OUTPUT_SIZE :: nat where
  "MAX_COMMAND_OUTPUT_SIZE = 100000"

text \<open>
  What the spawned shell did: the bytes read from its two pipes, its exit code
  (\<open>None\<close> is the \<open>null\<close> of a process ended by a signal), and whether the
  timer won the race against the reading of the pipes.
\<close>

record procResult =
  stdoutBytes :: string
  stderrBytes :: string
  exitCode :: "int option"
  timedOut :: bool

text \<open>The fields of the import context that processCommandInline reads.\<close>

record importCtx =
  templateVars :: "(string \<times> string) list option"
  dryRun :: bool
  invocationCwd :: "string option"

text \<open>
  What lies outside the function: the template engine, the platform, the process
  (\<open>Bun.spawn\<close> of an argument vector in a working directory, which either throws
  with a message or runs), \<open>TextDecoder\<close>, the removal of the matches of
  \<open>ANSI_ESCAPE_REGEX\<close>, and \<open>Number.prototype.toLocaleString\<close>.
\<close>

record cmdEnv =
  substituteTemplateVars :: "string \<Rightarrow> (string \<times> string) list \<Rightarrow> string"
  isWin :: bool
  spawn :: "string list \<Rightarrow> string \<Rightarrow> string + procResult"
  decode :: "string \<Rightarrow> string"
  stripAnsi :: "string \<Rightarrow> string"
  toLocaleString :: "nat \<Rightarrow> string"

text \<open>
  The replacement for a raw-block terminator inside the output:
  \<open>{% endraw %}{{ '{% endraw %}' }}{% raw %}\<close>.
\<close>

definition endrawEscape :: string where
  "endrawEscape =
     ''{% endraw %}{{ '' @ [CHR 0x27] @ ''{% endraw %}'' @ [CHR 0x27] @ '' }}{% raw %}''"

text \<open>\<open>a || b\<close> on strings: the empty string is falsy.\<close>

definition orElse :: "string \<Rightarrow> string \<Rightarrow> string" where
  "orElse a b = (if a \<noteq> [] then a else b)"

definition showExitCode :: "int option \<Rightarrow> string" where
  "showExitCode c = (case c of None \<Rightarrow> ''null'' | Some n \<Rightarrow> showInt n)"

text \<open>
  The \<open>try\<close> block after the process has been spawned: \<open>Inl\<close> is the message of
  the error thrown, \<open>Inr\<close> the string returned.
\<close>

definition commandTry :: "cmdEnv \<Rightarrow> string \<Rightarrow> procResult \<Rightarrow> string + string" where
  "commandTry env actualCommand proc =
     (if timedOut proc
      then Inl (''Command timed out after '' @ showNat COMMAND_TIMEOUT_MS @ ''ms: '' @ actualCommand)
      else if CHR 0x00 \<in> set (take 1024 (stdoutBytes proc))
      then Inl (''Command returned binary data. Inline commands must return text: '' @ actualCommand)
      else
        let stdout = stripAnsi env (trim (decode env (stdoutBytes proc)));
            stderr = stripAnsi env (trim (decode env (stderrBytes proc)))
        in if exitCode proc \<noteq> Some 0
           then Inl (''Command failed (Exit '' @ showExitCode (exitCode proc) @ ''): ''
                     @ actualCommand @ [NL] @ ''Output: ''
                     @ orElse stderr (orElse stdout ''No output''))
           else
             let output = (if stderr \<noteq> [] \<and> stdout \<noteq> [] then stderr @ [NL] @ stdout
                           else orElse stdout (orElse stderr []));
                 output = (if length output > MAX_COMMAND_OUTPUT_SIZE
                           then take MAX_COMMAND_OUTPUT_SIZE output
                                @ [NL] @ ''... [Output truncated: ''
                                @ toLocaleString env (length output - MAX_COMMAND_OUTPUT_SIZE)
                                @ '' characters removed]''
                           else output)
             in if output \<noteq> []
                then Inr (''{% raw %}'' @ [NL]
                          @ replaceAll ''{% endraw %}'' endrawEscape output
                          @ [NL] @ ''{% endraw %}'')
                else Inr output)"

text \<open>
  The \<open>catch\<close> block: time-outs and exit-code errors are thrown again as they are,
  every other error is wrapped.
\<close>

definition commandCatch :: "string \<Rightarrow> string \<Rightarrow> string" where
  "commandCatch actualCommand errorMessage =
     (if strIncludes ''timed out'' errorMessage \<or> strIncludes ''Exit '' errorMessage
      then errorMessage
      else ''Command failed: '' @ actualCommand @ '' - '' @ errorMessage)"

text \<open>
  The function, in the order of the source; what it writes to the console is left out.
  First the command line that is run: the template variables substituted, then the
  \<open>mdflow\<close> prefix for a markdown file.
\<close>

definition processedCommandOf :: "cmdEnv \<Rightarrow> string \<Rightarrow> importCtx \<Rightarrow> string" where
  "processedCommandOf env command ctx =
     (case templateVars ctx of
        None \<Rightarrow> command
      | Some vars \<Rightarrow>
          if vars \<noteq> [] then substituteTemplateVars env command vars else command)"

definition actualCommandOf :: "cmdEnv \<Rightarrow> string \<Rightarrow> importCtx \<Rightarrow> string" where
  "actualCommandOf env command ctx =
     (let processedCommand = processedCommandOf env command ctx
      in if isMarkdownFileCommand processedCommand
         then ''mdflow '' @ processedCommand else processedCommand)"

definition commandCwdOf :: "string \<Rightarrow> importCtx \<Rightarrow> string" where
  "commandCwdOf currentFileDir ctx =
     (case invocationCwd ctx of None \<Rightarrow> currentFileDir | Some d \<Rightarrow> d)"

definition shellArgv :: "cmdEnv \<Rightarrow> string \<Rightarrow> string list" where
  "shellArgv env actualCommand =
     (let shell = (if isWin env then ''cmd.exe'' else ''sh'');
          shellArgs = (if isWin env then [''/d'', ''/s'', ''/c'', actualCommand]
                       else [''-c'', actualCommand])
      in shell # shellArgs)"

definition processCommandInline ::
  "cmdEnv \<Rightarrow> string \<Rightarrow> string \<Rightarrow> importCtx \<Rightarrow> string + string" where
  "processCommandInline env command currentFileDir ctx =
     (let actualCommand = actualCommandOf env command ctx
      in if dryRun ctx
         then Inr (''{% raw %}'' @ [NL] @ ''[Dry Run: Command '' @ [CHR 0x22] @ actualCommand
                   @ [CHR 0x22] @ '' not executed]'' @ [NL] @ ''{% endraw %}'')
         else
           case (case spawn env (shellArgv env actualCommand) (commandCwdOf currentFileDir ctx) of
                   Inl thrown \<Rightarrow> Inl thrown
                 | Inr proc \<Rightarrow> commandTry env actualCommand proc) of
             Inl errorMessage \<Rightarrow> Inl (commandCatch actualCommand errorMessage)
           | Inr result \<Rightarrow> Inr result)"

section \<open>Import paths (src/imports-parser.ts and src/imports.ts)\<close>

text \<open>
  The helpers below exist twice in the sources, with the same text: in the parser
  (\<open>isGlobPattern\<close>, \<open>parseSymbolExtraction\<close>, \<open>parseLineRange\<close>) and in the
  resolver (the same names with the suffix \<open>Internal\<close>).
\<close>

definition isGlobPattern :: "string \<Rightarrow> bool" where
  "isGlobPattern path = (CHR ''*'' \<in> set path \<or> CHR ''?'' \<in> set path \<or> CHR ''['' \<in> set path)"

text \<open>The characters the pattern \<open>.\<close> does not match, among the code units below 256.\<close>

definition isLineTerminator :: "char \<Rightarrow> bool" where
  "isLineTerminator c = (c = NL \<or> c = CHR 0x0D)"

definition isIdentStart :: "char \<Rightarrow> bool" where
  "isIdentStart c =
     (let n = (of_char c :: nat)
      in (97 \<le> n \<and> n \<le> 122) \<or> (65 \<le> n \<and> n \<le> 90) \<or> c = CHR ''_'' \<or> c = CHR ''$'')"

definition isIdentChar :: "char \<Rightarrow> bool" where
  "isIdentChar c = (isIdentStart c \<or> isDigit c)"

text \<open>\<open>s.lastIndexOf(c)\<close>, with \<open>None\<close> for -1.\<close>

definition lastIndexOf :: "char \<Rightarrow> string \<Rightarrow> nat option" where
  "lastIndexOf c s =
     (case dropWhile (\<lambda>x. x \<noteq> c) (rev s) of
        [] \<Rightarrow> None
      | _ # rest \<Rightarrow> Some (length rest))"

text \<open>
  \<open>path.match(/^(.+)#([a-zA-Z_$][a-zA-Z0-9_$]*)$/)\<close>: an identifier holds no \<open>#\<close>,
  so the \<open>#\<close> of a match is the last one of the path. \<open>None\<close> is the result
  \<open>{ path }\<close> without a symbol.
\<close>

definition parseSymbolExtraction :: "string \<Rightarrow> (string \<times> string) option" where
  "parseSymbolExtraction path =
     (case lastIndexOf (CHR ''#'') path of
        None \<Rightarrow> None
      | Some i \<Rightarrow>
          (let p = take i path; symbol = drop (Suc i) path
           in case symbol of
                [] \<Rightarrow> None
              | c # cs \<Rightarrow>
                  if p \<noteq> [] \<and> \<not> list_ex isLineTerminator p
                     \<and> isIdentStart c \<and> list_all isIdentChar cs
                  then Some (p, symbol) else None))"

text \<open>
  \<open>parseInt(ds, 10)\<close> on a string of decimal digits: the number the digits denote.
  This is the source's result for every numeral below \<open>2^53\<close>; for a longer numeral
  the source's number is an approximation, which the language leaves in part to the
  implementation and which is not modelled.
\<close>

definition parseInt :: "string \<Rightarrow> nat" where
  "parseInt ds = foldl (\<lambda>a c. 10 * a + (of_char c - 48)) 0 ds"

text \<open>
  \<open>path.match(/^(.+):(\d+)-(\d+)$/)\<close>: the second number is what follows the last
  \<open>-\<close>, the first number what lies between the last \<open>:\<close> before it and that
  \<open>-\<close>. \<open>None\<close> is the result \<open>{ path }\<close> without a range.
\<close>

definition parseLineRange :: "string \<Rightarrow> (string \<times> nat \<times> nat) option" where
  "parseLineRange path =
     (case lastIndexOf (CHR ''-'') path of
        None \<Rightarrow> None
      | Some j \<Rightarrow>
          (let front = take j path; d2 = drop (Suc j) path
           in case lastIndexOf (CHR '':'') front of
                None \<Rightarrow> None
              | Some i \<Rightarrow>
                  (let p = take i front; d1 = drop (Suc i) front
                   in if p \<noteq> [] \<and> \<not> list_ex isLineTerminator p
                         \<and> d1 \<noteq> [] \<and> list_all isDigit d1
                         \<and> d2 \<noteq> [] \<and> list_all isDigit d2
                      then Some (p, parseInt d1, parseInt d2) else None)))"

section \<open>File imports (src/imports.ts, processFileImport)\<close>

text \<open>
  The errors processFileImport throws. In the source each is an \<open>Error\<close> with a
  message (FileSizeLimitError is a class of its own); the constructor keeps the kind
  and the values the message is made of. \<open>CircularImport\<close> carries the chain
  \<open>[...stack, canonicalPath]\<close> that the message joins with \<open>" -> "\<close>.
\<close>

datatype importError =
    ImportNotFound string string
  | CircularImport "string list"
  | FileSizeLimit string nat
  | BinaryImport string string
  | Failure string

text \<open>
  What lies outside the function: the file system as \<open>Bun.file\<close> and
  \<open>realpathSync\<close> show it (\<open>realpath\<close> is \<open>None\<close> when \<open>realpathSync\<close> throws),
  the home directory, \<open>path.resolve\<close> and \<open>path.dirname\<close>, the size limit of
  src/limits.ts, and the functions the branches hand over to: the glob expander, the
  symbol extractor and the recursive expansion of the imported file.
\<close>

record fileEnv =
  fileExists :: "string \<Rightarrow> bool"
  realpath :: "string \<Rightarrow> string option"
  fileSize :: "string \<Rightarrow> nat"
  isBinaryFile :: "string \<Rightarrow> bool"
  fileText :: "string \<Rightarrow> string"
  homedir :: string
  pathResolve :: "string \<Rightarrow> string \<Rightarrow> string"
  dirname :: "string \<Rightarrow> string"
  exceedsLimit :: "nat \<Rightarrow> bool"
  processGlobImport :: "string \<Rightarrow> string \<Rightarrow> importError + string"
  extractSymbol :: "string \<Rightarrow> string \<Rightarrow> importError + string"
  expandImports :: "string \<Rightarrow> string \<Rightarrow> string list \<Rightarrow> importError + string"

text \<open>
  What \<open>String.prototype.replace\<close> puts in place of a match of a string pattern,
  given the replacement string: \<open>$$\<close> stands for a dollar sign, \<open>$&\<close> for the
  matched text, \<open>$`\<close> for the text before the match and \<open>$'\<close> for the text after
  it; there are no capture groups, so every other character stands for itself.
\<close>

fun getSubstitution :: "string \<Rightarrow> string \<Rightarrow> string \<Rightarrow> string \<Rightarrow> string" where
  "getSubstitution m before after [] = []"
| "getSubstitution m before after [c] = [c]"
| "getSubstitution m before after (c # d # r) =
     (if c = CHR ''$'' \<and> d = CHR ''$'' then CHR ''$'' # getSubstitution m before after r
      else if c = CHR ''$'' \<and> d = CHR ''&'' then m @ getSubstitution m before after r
      else if c = CHR ''$'' \<and> d = CHR 0x60 then before @ getSubstitution m before after r
      else if c = CHR ''$'' \<and> d = CHR 0x27 then after @ getSubstitution m before after r
      else c # getSubstitution m before after (d # r))"

text \<open>
  \<open>filePath.replace("~", homedir())\<close> replaces the first \<open>~\<close>, here the leading
  one, and reads the home directory as a replacement string.
\<close>

definition expandTilde :: "fileEnv \<Rightarrow> string \<Rightarrow> string" where
  "expandTilde env filePath =
     (if startsWith ''~/'' filePath \<or> filePath = ''~''
      then getSubstitution ''~'' [] (drop 1 filePath) (homedir env) @ drop 1 filePath
      else filePath)"

definition resolveImportPath :: "fileEnv \<Rightarrow> string \<Rightarrow> string \<Rightarrow> string" where
  "resolveImportPath env importPath currentFileDir =
     (let expanded = expandTilde env importPath
      in if startsWith ''/'' expanded then expanded
         else pathResolve env currentFileDir expanded)"

definition toCanonicalPath :: "fileEnv \<Rightarrow> string \<Rightarrow> string" where
  "toCanonicalPath env filePath =
     (case realpath env filePath of
        Some p \<Rightarrow> p
      | None \<Rightarrow> filePath)"

text \<open>
  The checks every branch makes before it reads the file; \<open>shown\<close> is the path the
  messages name.
\<close>

definition checkReadable :: "fileEnv \<Rightarrow> string \<Rightarrow> string \<Rightarrow> importError option" where
  "checkReadable env shown resolvedPath =
     (if exceedsLimit env (fileSize env resolvedPath)
      then Some (FileSizeLimit resolvedPath (fileSize env resolvedPath))
      else if isBinaryFile env resolvedPath
      then Some (BinaryImport shown resolvedPath)
      else None)"

text \<open>
  The import stack is a \<open>Set\<close> of canonical paths; the list keeps its insertion
  order, which the cycle message shows. The tracker of resolved imports and the
  console output are left out.
\<close>

definition processFileImport ::
  "fileEnv \<Rightarrow> string \<Rightarrow> string \<Rightarrow> string list \<Rightarrow> importError + string" where
  "processFileImport env importPath currentFileDir stack =
     (if isGlobPattern importPath then processGlobImport env importPath currentFileDir
      else case parseSymbolExtraction importPath of
        Some (symPath, symbol) \<Rightarrow>
          (let resolvedPath = resolveImportPath env symPath currentFileDir
           in if \<not> fileExists env resolvedPath then Inl (ImportNotFound symPath resolvedPath)
              else case checkReadable env symPath resolvedPath of
                     Some e \<Rightarrow> Inl e
                   | None \<Rightarrow> extractSymbol env (fileText env resolvedPath) symbol)
      | None \<Rightarrow>
         (case parseLineRange importPath of
            Some (rangePath, start, end) \<Rightarrow>
              (let resolvedPath = resolveImportPath env rangePath currentFileDir
               in if \<not> fileExists env resolvedPath then Inl (ImportNotFound rangePath resolvedPath)
                  else case checkReadable env rangePath resolvedPath of
                         Some e \<Rightarrow> Inl e
                       | None \<Rightarrow> Inr (extractLines (fileText env resolvedPath) (int start) (int end)))
          | None \<Rightarrow>
              (let resolvedPath = resolveImportPath env importPath currentFileDir
               in if \<not> fileExists env resolvedPath then Inl (ImportNotFound importPath resolvedPath)
                  else
                    let canonicalPath = toCanonicalPath env resolvedPath
                    in if canonicalPath \<in> set stack
                       then Inl (CircularImport (stack @ [canonicalPath]))
                       else case checkReadable env importPath resolvedPath of
                              Some e \<Rightarrow> Inl e
                            | None \<Rightarrow>
                                expandImports env (fileText env resolvedPath) (dirname env resolvedPath)
                                  (if canonicalPath \<in> set stack then stack
                                   else stack @ [canonicalPath]))))"

text \<open>
  A file system with symbolic links, as the platform resolves them: a path names a
  regular file, names a link to another path, or names nothing. \<open>follow\<close> resolves a
  path through at most \<open>n\<close> links; running out of links is the platform's ELOOP.
\<close>

datatype fsNode = RegularFile string | SymLink string

fun follow :: "(string \<Rightarrow> fsNode option) \<Rightarrow> nat \<Rightarrow> string \<Rightarrow> string option" where
  "follow fs 0 p = (case fs p of Some (RegularFile c) \<Rightarrow> Some p | _ \<Rightarrow> None)"
| "follow fs (Suc n) p =
     (case fs p of
        None \<Rightarrow> None
      | Some (RegularFile c) \<Rightarrow> Some p
      | Some (SymLink t) \<Rightarrow> follow fs n t)"

definition MAXSYMLINKS :: nat where
  "MAXSYMLINKS = 40"

text \<open>
  An environment over such a file system: a path exists when it resolves to a file
  (\<open>stat\<close> follows links), and \<open>realpathSync\<close> returns what it resolves to.
\<close>

definition onFileSystem :: "(string \<Rightarrow> fsNode option) \<Rightarrow> fileEnv \<Rightarrow> fileEnv" where
  "onFileSystem fs env =
     env\<lparr>fileExists := (\<lambda>p. follow fs MAXSYMLINKS p \<noteq> None),
         realpath := follow fs MAXSYMLINKS\<rparr>"

section \<open>Config merging (src/config.ts, deepCloneConfig and mergeConfigs)\<close>

text \<open>
  What mergeConfigs guarantees depends on which objects are shared, so the objects
  live in a store. A \<open>GlobalConfig\<close> is an object with an optional \<open>commands\<close>
  property; the commands object maps a command name to a \<open>CommandDefaults\<close>
  object; a defaults object maps a key to a value. A value is a string, another
  primitive (null, a boolean or a number), or a reference to an object of the store
  (a nested plain object or an array).
\<close>

datatype 'p jvalue = StrV string | AtomV 'p | RefV nat

text \<open>
  A commands object has its own properties and a prototype slot: \<open>None\<close> is
  \<open>Object.prototype\<close>, as for every object a literal or a parser creates, and
  \<open>Some p\<close> the object that an assignment to \<open>__proto__\<close> has put there. Plain
  objects (\<open>DefaultsObj\<close>) and arrays always have the prototype they are created
  with. Property lists are in the order of \<open>Object.entries\<close>.
\<close>

datatype 'p cell =
    ConfigObj "nat option"
  | CommandsObj "(string \<times> nat) list" "nat option"
  | DefaultsObj "(string \<times> 'p jvalue) list"
  | ArrayObj "'p jvalue list"

record 'p heap =
  cells :: "nat \<Rightarrow> 'p cell option"
  nextAddr :: nat

text \<open>A new object gets the next address.\<close>

definition alloc :: "'p cell \<Rightarrow> 'p heap \<Rightarrow> nat \<times> 'p heap" where
  "alloc c h = (nextAddr h, h\<lparr>cells := (cells h)(nextAddr h \<mapsto> c), nextAddr := Suc (nextAddr h)\<rparr>)"

text \<open>\<open>config.commands\<close> (\<open>None\<close> is \<open>undefined\<close>).\<close>

definition getCommands :: "'p heap \<Rightarrow> nat \<Rightarrow> nat option" where
  "getCommands h a = (case cells h a of Some (ConfigObj c) \<Rightarrow> c | _ \<Rightarrow> None)"

text \<open>\<open>Object.entries(commands)\<close>: the own properties, not the prototype's.\<close>

definition commandEntries :: "'p heap \<Rightarrow> nat \<Rightarrow> (string \<times> nat) list" where
  "commandEntries h c = (case cells h c of Some (CommandsObj es p) \<Rightarrow> es | _ \<Rightarrow> [])"

definition commandsProto :: "'p heap \<Rightarrow> nat \<Rightarrow> nat option" where
  "commandsProto h c = (case cells h c of Some (CommandsObj es p) \<Rightarrow> p | _ \<Rightarrow> None)"

text \<open>The own properties of a defaults object, as a spread reads them.\<close>

definition defaultsProps :: "'p heap \<Rightarrow> nat \<Rightarrow> (string \<times> 'p jvalue) list" where
  "defaultsProps h d = (case cells h d of Some (DefaultsObj ps) \<Rightarrow> ps | _ \<Rightarrow> [])"

text \<open>
  The order of own properties: the names that are array indices (canonical decimal
  numerals below \<open>2^32 - 1\<close>) come first, ascending, and the other names follow in
  the order of their creation. \<open>defineProperty\<close> is the creation or replacement of
  an own data property, as an object literal, a spread and an ordinary assignment
  do it: an existing property keeps its place.
\<close>

definition digitsValue :: "string \<Rightarrow> nat" where
  "digitsValue ds = foldl (\<lambda>a c. 10 * a + (of_char c - 48)) 0 ds"

definition isArrayIndex :: "string \<Rightarrow> bool" where
  "isArrayIndex k =
     (k \<noteq> [] \<and> list_all isDigit k \<and> (k = ''0'' \<or> hd k \<noteq> CHR ''0'')
      \<and> digitsValue k < 4294967295)"

fun insertIndex :: "string \<Rightarrow> 'a \<Rightarrow> (string \<times> 'a) list \<Rightarrow> (string \<times> 'a) list" where
  "insertIndex k v [] = [(k, v)]"
| "insertIndex k v (e # es) =
     (if isArrayIndex (fst e) \<and> digitsValue (fst e) < digitsValue k
      then e # insertIndex k v es
      else (k, v) # e # es)"

definition defineProperty :: "string \<Rightarrow> 'a \<Rightarrow> (string \<times> 'a) list \<Rightarrow> (string \<times> 'a) list" where
  "defineProperty k v ps =
     (if isArrayIndex k \<and> k \<notin> set (map fst ps) then insertIndex k v ps
      else AList.update k v ps)"

text \<open>
  The properties of the object literal \<open>{...a, ...b}\<close>, given those of \<open>a\<close> and
  \<open>b\<close>: each property is defined on the new object in turn. A spread defines
  \<open>__proto__\<close> as an own property like any other.
\<close>

definition objSpread :: "(string \<times> 'a) list \<Rightarrow> (string \<times> 'a) list \<Rightarrow> (string \<times> 'a) list" where
  "objSpread a b = foldl (\<lambda>obj kv. defineProperty (fst kv) (snd kv) obj) a b"

text \<open>\<open>result.commands = c\<close>.\<close>

definition setCommands :: "nat \<Rightarrow> nat \<Rightarrow> 'p heap \<Rightarrow> 'p heap" where
  "setCommands r c h = h\<lparr>cells := (cells h)(r \<mapsto> ConfigObj (Some c))\<rparr>"

text \<open>
  The assignment \<open>commands[cmd] = d\<close>, where \<open>d\<close> is an object. For every name
  but \<open>__proto__\<close> it defines an own property (the properties that a prototype may
  have under that name are writable data properties). For \<open>__proto__\<close> it does so
  only when the object has that own property already, as a parsed JSON object can, or
  when its prototype object has it; otherwise the assignment reaches the setter of
  \<open>Object.prototype\<close>, which makes \<open>d\<close> the prototype and stores no property.
\<close>

definition setCommand :: "nat \<Rightarrow> string \<Rightarrow> nat \<Rightarrow> 'p heap \<Rightarrow> 'p heap" where
  "setCommand c cmd d h =
     (let es = commandEntries h c; p = commandsProto h c
      in if cmd = ''__proto__'' \<and> cmd \<notin> set (map fst es)
            \<and> (case p of None \<Rightarrow> True | Some q \<Rightarrow> cmd \<notin> set (map fst (defaultsProps h q)))
         then h\<lparr>cells := (cells h)(c \<mapsto> CommandsObj es (Some d))\<rparr>
         else h\<lparr>cells := (cells h)(c \<mapsto> CommandsObj (defineProperty cmd d es) p)\<rparr>)"

text \<open>
  The own enumerable properties of an object, and what the spread \<open>...(v || {})\<close>
  copies from a value \<open>v\<close>: the properties of the object a reference points to,
  the characters of a string under their indices, nothing from another primitive.
\<close>

definition indexed :: "'a list \<Rightarrow> (string \<times> 'a) list" where
  "indexed xs = map (\<lambda>i. (showNat i, xs ! i)) [0 ..< length xs]"

definition objectProps :: "'p heap \<Rightarrow> nat \<Rightarrow> (string \<times> 'p jvalue) list" where
  "objectProps h a =
     (case cells h a of
        Some (DefaultsObj ps) \<Rightarrow> ps
      | Some (ArrayObj xs) \<Rightarrow> indexed xs
      | Some (CommandsObj es p) \<Rightarrow> map (\<lambda>e. (fst e, RefV (snd e))) es
      | Some (ConfigObj (Some c)) \<Rightarrow> [(''commands'', RefV c)]
      | _ \<Rightarrow> [])"

definition spreadValue :: "'p heap \<Rightarrow> 'p jvalue \<Rightarrow> (string \<times> 'p jvalue) list" where
  "spreadValue h v =
     (case v of
        StrV s \<Rightarrow> indexed (map (\<lambda>c. StrV [c]) s)
      | AtomV p \<Rightarrow> []
      | RefV a \<Rightarrow> objectProps h a)"

text \<open>
  What \<open>...(commands[cmd] || {})\<close> copies. The read finds an own property first.
  Failing that it looks in the prototype: an object put there by an assignment to
  \<open>__proto__\<close>, whose property under that name can be any value; and beyond it, or
  at once when the prototype is the default one, \<open>Object.prototype\<close>, where
  \<open>__proto__\<close> is a getter that returns the prototype and every other member is a
  function: a function and \<open>Object.prototype\<close> itself have no enumerable own
  properties, so that the spread copies nothing from them, as from \<open>undefined || {}\<close>.
\<close>

definition existingProps :: "'p heap \<Rightarrow> nat \<Rightarrow> string \<Rightarrow> (string \<times> 'p jvalue) list" where
  "existingProps h c cmd =
     (case map_of (commandEntries h c) cmd of
        Some e \<Rightarrow> defaultsProps h e
      | None \<Rightarrow>
          (case commandsProto h c of
             None \<Rightarrow> []
           | Some q \<Rightarrow>
               (case map_of (defaultsProps h q) cmd of
                  Some v \<Rightarrow> spreadValue h v
                | None \<Rightarrow> if cmd = ''__proto__'' then defaultsProps h q else [])))"

text \<open>
  The body of the loop of deepCloneConfig:
  \<open>result.commands[cmd] = { ...defaults }\<close>.
\<close>

definition cloneEntry :: "nat \<Rightarrow> 'p heap \<Rightarrow> string \<times> nat \<Rightarrow> 'p heap" where
  "cloneEntry rc h entry =
     (let (d, h1) = alloc (DefaultsObj (objSpread [] (defaultsProps h (snd entry)))) h
      in setCommand rc (fst entry) d h1)"

definition deepCloneConfig :: "'p heap \<Rightarrow> nat \<Rightarrow> nat \<times> 'p heap" where
  "deepCloneConfig h config =
     (let (result, h1) = alloc (ConfigObj None) h
      in case getCommands h1 config of
           None \<Rightarrow> (result, h1)
         | Some cs \<Rightarrow>
             (let (rc, h2) = alloc (CommandsObj [] None) h1;
                  h3 = setCommands result rc h2
              in (result, foldl (cloneEntry rc) h3 (commandEntries h3 cs))))"

text \<open>
  The body of the loop of mergeConfigs:
  \<open>result.commands[cmd] = { ...(result.commands[cmd] || {}), ...defaults }\<close>.
  The empty object of \<open>|| {}\<close> is dropped at once and is not allocated here.
\<close>

definition mergeEntry :: "nat \<Rightarrow> 'p heap \<Rightarrow> string \<times> nat \<Rightarrow> 'p heap" where
  "mergeEntry rc h entry =
     (let existing = existingProps h rc (fst entry);
          (d, h1) = alloc (DefaultsObj (objSpread (objSpread [] existing)
                                                  (defaultsProps h (snd entry)))) h
      in setCommand rc (fst entry) d h1)"

text \<open>
  mergeConfigs. \<open>{ ...result.commands }\<close> is a new object with the own properties
  of the clone's commands object and the default prototype.
\<close>

definition mergeConfigs :: "'p heap \<Rightarrow> nat \<Rightarrow> nat \<Rightarrow> nat \<times> 'p heap" where
  "mergeConfigs h base override =
     (let (result, h1) = deepCloneConfig h base
      in case getCommands h1 override of
           None \<Rightarrow> (result, h1)
         | Some ocs \<Rightarrow>
             (let (rc, h2) = alloc (CommandsObj (case getCommands h1 result of
                                                  Some c \<Rightarrow> objSpread [] (commandEntries h1 c)
                                                | None \<Rightarrow> []) None) h1;
                  h3 = setCommands result rc h2
              in (result, foldl (mergeEntry rc) h3 (commandEntries h3 ocs))))"

text \<open>
  The value of a config in a store: its commands, each with the properties of its
  defaults object, as \<open>Object.entries\<close> lists them.
\<close>

definition readConfig :: "'p heap \<Rightarrow> nat \<Rightarrow> (string \<times> (string \<times> 'p jvalue) list) list option" where
  "readConfig h a =
     map_option (\<lambda>c. map (\<lambda>e. (fst e, defaultsProps h (snd e))) (commandEntries h c))
       (getCommands h a)"



text \<open>
  A config of plain data in a store, with no command named \<open>__proto__\<close>: the config
  object, its commands object and the defaults objects exist, with these types, at
  allocated addresses; the commands object has the default prototype, and none of
  its properties is named \<open>__proto__\<close>.
\<close>

definition isDefaultsObj :: "'p heap \<Rightarrow> nat \<Rightarrow> bool" where
  "isDefaultsObj h d = (case cells h d of Some (DefaultsObj ps) \<Rightarrow> True | _ \<Rightarrow> False)"

definition validConfig :: "'p heap \<Rightarrow> nat \<Rightarrow> bool" where
  "validConfig h a =
     (a < nextAddr h \<and>
      (case cells h a of
         Some (ConfigObj None) \<Rightarrow> True
       | Some (ConfigObj (Some cs)) \<Rightarrow>
           cs < nextAddr h \<and>
           (case cells h cs of
              Some (CommandsObj es p) \<Rightarrow>
                p = None \<and>
                list_all (\<lambda>e. fst e \<noteq> ''__proto__'' \<and> snd e < nextAddr h
                               \<and> isDefaultsObj h (snd e)) es
            | _ \<Rightarrow> False)
       | _ \<Rightarrow> False))"

text \<open>
  The value mergeConfigs computes, on the values of its arguments: the same loops as
  above, without the store. \<open>mergeConfigs_correct\<close> below shows that this is what the
  store holds at the result.
\<close>

definition clonedValue ::
  "(string \<times> (string \<times> 'v) list) list option \<Rightarrow> (string \<times> (string \<times> 'v) list) list option" where
  "clonedValue cfg =
     map_option (foldl (\<lambda>acc e. defineProperty (fst e) (objSpread [] (snd e)) acc) []) cfg"

definition mergedValue ::
  "(string \<times> (string \<times> 'v) list) list option \<Rightarrow> (string \<times> (string \<times> 'v) list) list option
     \<Rightarrow> (string \<times> (string \<times> 'v) list) list option" where
  "mergedValue base override =
     (case override of
        None \<Rightarrow> clonedValue base
      | Some ocs \<Rightarrow>
          Some (foldl (\<lambda>acc e. defineProperty (fst e)
                                 (objSpread (objSpread [] (case map_of acc (fst e) of
                                                             Some x \<Rightarrow> x
                                                           | None \<Rightarrow> []))
                                            (snd e)) acc)
                      (case clonedValue base of Some c \<Rightarrow> objSpread [] c | None \<Rightarrow> [])
                      ocs))"

text \<open>
  \<open>extends n h h'\<close>: the store \<open>h'\<close> has every object of \<open>h\<close> below address \<open>n\<close>
  unchanged, and has not lost an address.
\<close>

definition extends :: "nat \<Rightarrow> 'v heap \<Rightarrow> 'v heap \<Rightarrow> bool" where
  "extends n h h' = (nextAddr h \<le> nextAddr h' \<and> (\<forall>a<n. cells h' a = cells h a))"

text \<open>
  The commands object at \<open>rc\<close> and the defaults objects it names all lie at or above
  address \<open>n\<close>; it has the default prototype and no command named \<open>__proto__\<close>.
\<close>

definition freshCommands :: "nat \<Rightarrow> 'v heap \<Rightarrow> nat \<Rightarrow> bool" where
  "freshCommands n h rc =
     (n \<le> rc \<and> rc < nextAddr h \<and>
      (case cells h rc of
         Some (CommandsObj es p) \<Rightarrow>
           p = None \<and>
           list_all (\<lambda>e. fst e \<noteq> ''__proto__'' \<and> n \<le> snd e \<and> snd e < nextAddr h
                          \<and> isDefaultsObj h (snd e)) es
       | _ \<Rightarrow> False))"

definition readEntries :: "'p heap \<Rightarrow> nat \<Rightarrow> (string \<times> (string \<times> 'p jvalue) list) list" where
  "readEntries h c = map (\<lambda>e. (fst e, defaultsProps h (snd e))) (commandEntries h c)"

text \<open>
  The config object at \<open>r\<close>, its commands object and the defaults objects it names
  all lie at or above address \<open>n\<close>.
\<close>

definition freshConfig :: "nat \<Rightarrow> 'v heap \<Rightarrow> nat \<Rightarrow> bool" where
  "freshConfig n h r =
     (n \<le> r \<and> r < nextAddr h \<and>
      (case cells h r of
         Some (ConfigObj None) \<Rightarrow> True
       | Some (ConfigObj (Some rc)) \<Rightarrow> freshCommands n h rc
       | _ \<Rightarrow> False))"

text \<open>
  \<open>onlyChanges rc h h'\<close>: apart from the object at \<open>rc\<close>, the store \<open>h'\<close> has every
  object of \<open>h\<close> unchanged.
\<close>

definition onlyChanges :: "nat \<Rightarrow> 'v heap \<Rightarrow> 'v heap \<Rightarrow> bool" where
  "onlyChanges rc h h' =
     (nextAddr h \<le> nextAddr h' \<and> (\<forall>a<nextAddr h. a \<noteq> rc \<longrightarrow> cells h' a = cells h a))"



text \<open>
  The values of \<open>mergeConfigs(mergeConfigs(a, b), c)\<close> and of
  \<open>mergeConfigs(a, mergeConfigs(b, c))\<close>, for configs of a store.
\<close>

definition mergeLeft ::
  "'p heap \<Rightarrow> nat \<Rightarrow> nat \<Rightarrow> nat \<Rightarrow> (string \<times> (string \<times> 'p jvalue) list) list option" where
  "mergeLeft h a b c =
     (let (ab, h1) = mergeConfigs h a b; (l, h2) = mergeConfigs h1 ab c in readConfig h2 l)"

definition mergeRight ::
  "'p heap \<Rightarrow> nat \<Rightarrow> nat \<Rightarrow> nat \<Rightarrow> (string \<times> (string \<times> 'p jvalue) list) list option" where
  "mergeRight h a b c =
     (let (bc, h3) = mergeConfigs h b c; (r, h4) = mergeConfigs h3 a bc in readConfig h4 r)"



text \<open>
  The store of the configs \<open>{"commands": {"claude": {"add-dir": ["a"]}}}\<close> (at 0)
  and \<open>{}\<close> (at 4).
\<close>

definition arrayStore :: "int heap" where
  "arrayStore =
     \<lparr>cells = [0 \<mapsto> ConfigObj (Some 1),
               1 \<mapsto> CommandsObj [(''claude'', 2)] None,
               2 \<mapsto> DefaultsObj [(''add-dir'', RefV 3)],
               3 \<mapsto> ArrayObj [StrV ''a''],
               4 \<mapsto> ConfigObj None],
      nextAddr = 5\<rparr>"

text \<open>
  What a caller does with a config: \<open>config.commands[cmd][key]\<close>, read as an array,
  and \<open>config.commands[cmd][key].push(x)\<close>. Both reach the command through the own
  properties of the commands object.
\<close>

definition valueAt :: "'p heap \<Rightarrow> nat \<Rightarrow> string \<Rightarrow> string \<Rightarrow> 'p jvalue option" where
  "valueAt h config cmd key =
     (case getCommands h config of
        None \<Rightarrow> None
      | Some c \<Rightarrow>
          (case map_of (commandEntries h c) cmd of
             None \<Rightarrow> None
           | Some d \<Rightarrow> map_of (defaultsProps h d) key))"

definition arrayAt :: "'p heap \<Rightarrow> nat \<Rightarrow> string \<Rightarrow> string \<Rightarrow> 'p jvalue list option" where
  "arrayAt h config cmd key =
     (case valueAt h config cmd key of
        Some (RefV a) \<Rightarrow> (case cells h a of Some (ArrayObj xs) \<Rightarrow> Some xs | _ \<Rightarrow> None)
      | _ \<Rightarrow> None)"

definition pushAt :: "'p heap \<Rightarrow> nat \<Rightarrow> string \<Rightarrow> string \<Rightarrow> 'p jvalue \<Rightarrow> 'p heap" where
  "pushAt h config cmd key x =
     (case valueAt h config cmd key of
        Some (RefV a) \<Rightarrow>
          (case cells h a of
             Some (ArrayObj xs) \<Rightarrow> h\<lparr>cells := (cells h)(a \<mapsto> ArrayObj (xs @ [x]))\<rparr>
           | _ \<Rightarrow> h)
      | _ \<Rightarrow> h)"

section \<open>The directive parser (src/imports-parser.ts)\<close>

subsection \<open>The safe-range scan (findSafeRanges)\<close>

datatype scanContext = Normal | FencedCode | InlineCode

text \<open>
  The variables of the loop. \<open>fenceChar\<close> starts as the empty string, which equals
  no character: \<open>None\<close>.
\<close>

record scanState =
  scanCtx :: scanContext
  rangeStart :: nat
  pos :: nat
  fenceChar :: "char option"
  fenceLen :: nat
  safeRanges :: "(nat \<times> nat) list"

text \<open>
  The inner loops: the number of consecutive characters equal to \<open>c\<close> from index
  \<open>i\<close> on, and the index of the next line feed at or after \<open>i\<close> (the length of the
  content if there is none).
\<close>

definition runLength :: "char \<Rightarrow> string \<Rightarrow> nat \<Rightarrow> nat" where
  "runLength c content i = length (takeWhile (\<lambda>x. x = c) (drop i content))"

definition skipToNewline :: "string \<Rightarrow> nat \<Rightarrow> nat" where
  "skipToNewline content i = i + length (takeWhile (\<lambda>x. x \<noteq> NL) (drop i content))"

text \<open>\<open>if (i > rangeStart) safeRanges.push({ start: rangeStart, end: i })\<close>.\<close>

definition pushRange :: "scanState \<Rightarrow> (nat \<times> nat) list" where
  "pushRange st =
     (if pos st > rangeStart st then safeRanges st @ [(rangeStart st, pos st)]
      else safeRanges st)"

text \<open>
  One iteration of the \<open>while (i < content.length)\<close> loop, for \<open>pos st\<close> inside the
  content. Reading \<open>content[i + 1]\<close> past the end gives \<open>undefined\<close>, which is not a
  backtick.
\<close>

definition scanStep :: "string \<Rightarrow> scanState \<Rightarrow> scanState" where
  "scanStep content st =
     (let i = pos st; c = content ! i in
      case scanCtx st of
        Normal \<Rightarrow>
          if (c = CHR 0x60 \<or> c = CHR ''~'') \<and> 3 \<le> runLength c content i
          then st\<lparr>safeRanges := pushRange st,
                  scanCtx := FencedCode,
                  fenceChar := Some c,
                  fenceLen := runLength c content i,
                  pos := skipToNewline content (i + runLength c content i)\<rparr>
          else if c = CHR 0x60 \<and> \<not> (Suc i < length content \<and> content ! Suc i = CHR 0x60)
          then st\<lparr>safeRanges := pushRange st, scanCtx := InlineCode, pos := Suc i\<rparr>
          else st\<lparr>pos := Suc i\<rparr>
      | FencedCode \<Rightarrow>
          if (i = 0 \<or> content ! (i - 1) = NL) \<and> Some c = fenceChar st
             \<and> fenceLen st \<le> runLength c content i
          then (let j = skipToNewline content (i + runLength c content i);
                    j' = (if j < length content then Suc j else j)
                in st\<lparr>scanCtx := Normal, rangeStart := j', pos := j'\<rparr>)
          else st\<lparr>pos := Suc i\<rparr>
      | InlineCode \<Rightarrow>
          if c = CHR 0x60
          then st\<lparr>scanCtx := Normal, rangeStart := Suc i, pos := Suc i\<rparr>
          else if c = NL
          then st\<lparr>scanCtx := Normal, rangeStart := i, pos := Suc i\<rparr>
          else st\<lparr>pos := Suc i\<rparr>)"

lemma runLength_at: "i < length content \<Longrightarrow> 0 < runLength (content ! i) content i"
  by (simp add: runLength_def Cons_nth_drop_Suc [symmetric])

lemma scanStep_advances:
  assumes "pos st < length content"
  shows "pos st < pos (scanStep content st)"
proof -
  have "0 < runLength (content ! pos st) content (pos st)"
    using assms by (rule runLength_at)
  then show ?thesis
    by (auto simp: scanStep_def Let_def skipToNewline_def split: scanContext.splits)
qed

function scanLoop :: "string \<Rightarrow> scanState \<Rightarrow> scanState" where
  "scanLoop content st =
     (if pos st < length content then scanLoop content (scanStep content st) else st)"
  by pat_completeness auto
termination
proof (relation "measure (\<lambda>(content, st). length content - pos st)")
  show "wf (measure (\<lambda>(content, st). length content - pos st))" by simp
next
  fix content :: string and st :: scanState
  assume "pos st < length content"
  then show "((content, scanStep content st), (content, st))
               \<in> measure (\<lambda>(content, st). length content - pos st)"
    using scanStep_advances [of st content] by simp
qed

declare scanLoop.simps [simp del]

text \<open>The states the loop goes through, the last one included.\<close>

function scanStates :: "string \<Rightarrow> scanState \<Rightarrow> scanState list" where
  "scanStates content st =
     (if pos st < length content then st # scanStates content (scanStep content st) else [st])"
  by pat_completeness auto
termination
proof (relation "measure (\<lambda>(content, st). length content - pos st)")
  show "wf (measure (\<lambda>(content, st). length content - pos st))" by simp
next
  fix content :: string and st :: scanState
  assume "pos st < length content"
  then show "((content, scanStep content st), (content, st))
               \<in> measure (\<lambda>(content, st). length content - pos st)"
    using scanStep_advances [of st content] by simp
qed

declare scanStates.simps [simp del]

definition initialScan :: scanState where
  "initialScan = \<lparr>scanCtx = Normal, rangeStart = 0, pos = 0, fenceChar = None,
                   fenceLen = 0, safeRanges = []\<rparr>"

definition findSafeRanges :: "string \<Rightarrow> (nat \<times> nat) list" where
  "findSafeRanges content =
     (let st = scanLoop content initialScan
      in if scanCtx st = Normal \<and> rangeStart st < length content
         then safeRanges st @ [(rangeStart st, length content)]
         else safeRanges st)"

definition isInSafeRange :: "nat \<Rightarrow> (nat \<times> nat) list \<Rightarrow> bool" where
  "isInSafeRange index ranges = list_ex (\<lambda>range. fst range \<le> index \<and> index < snd range) ranges"

text \<open>
  The set \<open>unsafeStarts\<close> that parseImports builds from the safe ranges, in the
  order of insertion.
\<close>

definition unsafeStarts :: "string \<Rightarrow> (nat \<times> nat) list \<Rightarrow> nat list" where
  "unsafeStarts content ranges =
     (case ranges of
        [] \<Rightarrow> (if 0 < length content then [0] else [])
      | r # rs \<Rightarrow>
          (if 0 < fst r then [0] else [])
          @ map snd (filter (\<lambda>range. snd range < length content) ranges))"

subsection \<open>The four patterns\<close>

text \<open>
  A match of a pattern: where it starts, where it ends (exclusive) and its capture
  groups. \<open>match[0]\<close> is the content from the start to the end.
\<close>

record rmatch =
  m_index :: nat
  m_end :: nat
  m_groups :: "string list"

definition matched :: "string \<Rightarrow> rmatch \<Rightarrow> string" where
  "matched content m = take (m_end m - m_index m) (drop (m_index m) content)"

text \<open>\<open>content.slice(a, b)\<close> for \<open>a \<le> b\<close>.\<close>

definition substring :: "string \<Rightarrow> nat \<Rightarrow> nat \<Rightarrow> string" where
  "substring content a b = take (b - a) (drop a content)"

text \<open>Whether the content has the character \<open>c\<close>, or the string \<open>w\<close>, at index \<open>i\<close>.\<close>

definition charAt :: "string \<Rightarrow> nat \<Rightarrow> char \<Rightarrow> bool" where
  "charAt content i c = (i < length content \<and> content ! i = c)"

definition stringAt :: "string \<Rightarrow> nat \<Rightarrow> string \<Rightarrow> bool" where
  "stringAt content i w = (take (length w) (drop i content) = w)"

text \<open>The end of the longest run of characters that are not white space, from \<open>i\<close> on.\<close>

definition nonSpaceEnd :: "string \<Rightarrow> nat \<Rightarrow> nat" where
  "nonSpaceEnd content i = i + length (takeWhile (\<lambda>c. \<not> isSpace c) (drop i content))"

text \<open>
  A pattern is modelled by its matcher at a position: \<open>None\<close> when the pattern does
  not match there, else the end of the match and the capture groups, found in the
  order in which the backtracking matcher tries the alternatives.

  \<open>FILE_IMPORT_PATTERN = /@(~?[./][^\s]+)/g\<close>: an \<open>@\<close>, an optional \<open>~\<close>, a
  \<open>.\<close> or \<open>/\<close>, then as many characters that are not white space as there are, at
  least one.
\<close>

definition fileImportAt :: "string \<Rightarrow> nat \<Rightarrow> (nat \<times> string list) option" where
  "fileImportAt content p =
     (if charAt content p (CHR ''@'')
      then (let q = (if charAt content (Suc p) (CHR ''~'') then Suc (Suc p) else Suc p)
            in if charAt content q (CHR ''.'') \<or> charAt content q (CHR ''/'')
               then (let e = nonSpaceEnd content (Suc q)
                     in if Suc q < e then Some (e, [substring content (Suc p) e]) else None)
               else None)
      else None)"

text \<open>
  \<open>URL_IMPORT_PATTERN = /@(https?:\/\/[^\s]+)/g\<close>.
\<close>

definition urlImportAt :: "string \<Rightarrow> nat \<Rightarrow> (nat \<times> string list) option" where
  "urlImportAt content p =
     (if charAt content p (CHR ''@'') \<and> stringAt content (Suc p) ''http''
      then (let q = (if charAt content (p + 5) (CHR ''s'') then p + 6 else p + 5)
            in if stringAt content q ''://''
               then (let e = nonSpaceEnd content (q + 3)
                     in if q + 3 < e then Some (e, [substring content (Suc p) e]) else None)
               else None)
      else None)"

text \<open>
  The first index at or after \<open>from\<close> where a run of at least \<open>n\<close> backticks
  starts: where a lazy quantifier followed by a back-reference to \<open>n\<close> backticks
  stops.
\<close>

definition findBackticks :: "string \<Rightarrow> nat \<Rightarrow> nat \<Rightarrow> nat option" where
  "findBackticks content n from =
     List.find (\<lambda>e. n \<le> runLength (CHR 0x60) content e) [from..<length content]"

text \<open>
  \<open>COMMAND_INLINE_PATTERN = /!(`+)([\s\S]+?)\1/g\<close>: the delimiter is first tried
  with all the backticks that follow the \<open>!\<close>, then with one fewer, down to one; for
  each delimiter the command is the shortest non-empty text that the same delimiter
  follows. \<open>delimiterTry content p n\<close> tries the delimiter lengths \<open>n\<close>, \<open>n - 1\<close>, ..., 1.
\<close>

fun delimiterTry :: "string \<Rightarrow> nat \<Rightarrow> nat \<Rightarrow> (nat \<times> string list) option" where
  "delimiterTry content p 0 = None"
| "delimiterTry content p (Suc n) =
     (case findBackticks content (Suc n) (p + Suc n + 2) of
        Some e \<Rightarrow> Some (e + Suc n,
                        [substring content (Suc p) (p + Suc n + 1),
                         substring content (p + Suc n + 1) e])
      | None \<Rightarrow> delimiterTry content p n)"

definition commandInlineAt :: "string \<Rightarrow> nat \<Rightarrow> (nat \<times> string list) option" where
  "commandInlineAt content p =
     (if charAt content p (CHR ''!'')
      then delimiterTry content p (runLength (CHR 0x60) content (Suc p))
      else None)"

text \<open>
  \<open>EXECUTABLE_FENCE_PATTERN = /(`{3,})(.*?)\n(#![^\n]+)\n([\s\S]*?)\1/g\<close>, for a
  fence of \<open>n\<close> backticks at \<open>p\<close>: the info string runs to the first line
  terminator, which must be a line feed; the next line starts with \<open>#!\<close>, has at
  least one more character and ends with a line feed; the code is the shortest text
  that \<open>n\<close> backticks follow.
\<close>

definition fenceAttempt :: "string \<Rightarrow> nat \<Rightarrow> nat \<Rightarrow> (nat \<times> string list) option" where
  "fenceAttempt content p n =
     (let q = p + n + length (takeWhile (\<lambda>c. \<not> isLineTerminator c) (drop (p + n) content))
      in if charAt content q NL \<and> stringAt content (Suc q) ''#!''
         then (let r = skipToNewline content (q + 3)
               in if q + 3 < r \<and> r < length content
                  then (case findBackticks content n (Suc r) of
                          Some e \<Rightarrow> Some (e + n,
                                          [substring content p (p + n),
                                           substring content (p + n) q,
                                           substring content (Suc q) r,
                                           substring content (Suc r) e])
                        | None \<Rightarrow> None)
                  else None)
         else None)"

text \<open>
  The fence is first tried with all the backticks at \<open>p\<close>, then with one fewer,
  down to three: \<open>fenceTry content p m\<close> tries the fence lengths \<open>m + 2\<close>,
  \<open>m + 1\<close>, ..., 3.
\<close>

fun fenceTry :: "string \<Rightarrow> nat \<Rightarrow> nat \<Rightarrow> (nat \<times> string list) option" where
  "fenceTry content p 0 = None"
| "fenceTry content p (Suc m) =
     (case fenceAttempt content p (Suc m + 2) of
        Some r \<Rightarrow> Some r
      | None \<Rightarrow> fenceTry content p m)"

definition executableFenceAt :: "string \<Rightarrow> nat \<Rightarrow> (nat \<times> string list) option" where
  "executableFenceAt content p = fenceTry content p (runLength (CHR 0x60) content p - 2)"

text \<open>
  The loop \<open>while ((match = PATTERN.exec(content)) !== null)\<close> of a global pattern,
  from \<open>lastIndex = p\<close>: the leftmost position at or after \<open>p\<close> where the pattern
  matches gives the next match, and \<open>lastIndex\<close> moves to its end. Each of the four
  patterns matches at least one character, so the end lies after the start.
\<close>

function matchesFrom ::
  "(string \<Rightarrow> nat \<Rightarrow> (nat \<times> string list) option) \<Rightarrow> string \<Rightarrow> nat \<Rightarrow> rmatch list" where
  "matchesFrom pat content p =
     (if length content \<le> p then []
      else (case pat content p of
              None \<Rightarrow> matchesFrom pat content (Suc p)
            | Some r \<Rightarrow>
                \<lparr>m_index = p, m_end = fst r, m_groups = snd r\<rparr>
                # matchesFrom pat content (max (Suc p) (fst r))))"
  by pat_completeness auto
termination
  by (relation "measure (\<lambda>(pat, content, p). length content - p)") auto

declare matchesFrom.simps [simp del]

subsection \<open>Import actions and parseImports\<close>

text \<open>
  The union \<open>ImportAction\<close>: what is particular to each type, then the fields
  \<open>original\<close> and \<open>index\<close> that all types have.
\<close>

datatype actionKind =
    FileImport string "(nat \<times> nat) option"
  | GlobImport string
  | SymbolImport string string
  | UrlImport string
  | CommandImport string
  | ExecutableCodeFence string string string

record importAction =
  a_kind :: actionKind
  a_original :: string
  a_index :: nat

definition parseFileImportPath :: "string \<Rightarrow> string \<Rightarrow> nat \<Rightarrow> importAction" where
  "parseFileImportPath fullMatch path index =
     (if isGlobPattern path
      then \<lparr>a_kind = GlobImport path, a_original = fullMatch, a_index = index\<rparr>
      else case parseSymbolExtraction path of
             Some (symPath, symbol) \<Rightarrow>
               \<lparr>a_kind = SymbolImport symPath symbol, a_original = fullMatch, a_index = index\<rparr>
           | None \<Rightarrow>
               (case parseLineRange path of
                  Some (rangePath, start, end) \<Rightarrow>
                    \<lparr>a_kind = FileImport rangePath (Some (start, end)),
                     a_original = fullMatch, a_index = index\<rparr>
                | None \<Rightarrow>
                    \<lparr>a_kind = FileImport path None, a_original = fullMatch, a_index = index\<rparr>))"

text \<open>
  \<open>infoString.trim().split(/\s+/)[0]\<close>, the first word of the info string, and
  \<open>language || 'txt'\<close>.
\<close>

definition fenceLanguage :: "string \<Rightarrow> string" where
  "fenceLanguage infoString =
     orElse (takeWhile (\<lambda>c. \<not> isSpace c) (trim infoString)) ''txt''"

text \<open>The four loops of parseImports, each with its test.\<close>

definition fileActions :: "string \<Rightarrow> (nat \<times> nat) list \<Rightarrow> importAction list" where
  "fileActions content ranges =
     map (\<lambda>m. parseFileImportPath (matched content m) (m_groups m ! 0) (m_index m))
       (filter (\<lambda>m. isInSafeRange (m_index m) ranges \<and> m_groups m ! 0 \<noteq> [])
          (matchesFrom fileImportAt content 0))"

definition urlActions :: "string \<Rightarrow> (nat \<times> nat) list \<Rightarrow> importAction list" where
  "urlActions content ranges =
     map (\<lambda>m. \<lparr>a_kind = UrlImport (m_groups m ! 0), a_original = matched content m,
                a_index = m_index m\<rparr>)
       (filter (\<lambda>m. isInSafeRange (m_index m) ranges \<and> m_groups m ! 0 \<noteq> [])
          (matchesFrom urlImportAt content 0))"

definition commandActions :: "string \<Rightarrow> (nat \<times> nat) list \<Rightarrow> importAction list" where
  "commandActions content ranges =
     map (\<lambda>m. \<lparr>a_kind = CommandImport (m_groups m ! 1), a_original = matched content m,
                a_index = m_index m\<rparr>)
       (filter (\<lambda>m. isInSafeRange (m_index m) ranges \<and> m_groups m ! 1 \<noteq> [])
          (matchesFrom commandInlineAt content 0))"

definition fenceActions :: "string \<Rightarrow> nat list \<Rightarrow> importAction list" where
  "fenceActions content starts =
     map (\<lambda>m. \<lparr>a_kind = ExecutableCodeFence (m_groups m ! 2) (fenceLanguage (m_groups m ! 1))
                            (trim (m_groups m ! 3)),
                a_original = matched content m, a_index = m_index m\<rparr>)
       (filter (\<lambda>m. m_index m \<in> set starts \<and> m_groups m ! 2 \<noteq> [])
          (matchesFrom executableFenceAt content 0))"

text \<open>
  \<open>actions.sort((a, b) => a.index - b.index)\<close> is a stable sort by index.
\<close>

definition parseImports :: "string \<Rightarrow> importAction list" where
  "parseImports content =
     (let ranges = findSafeRanges content;
          starts = unsafeStarts content ranges
      in sort_key a_index
           (fileActions content ranges @ urlActions content ranges
            @ commandActions content ranges @ fenceActions content starts))"

text \<open>
  The type of an executable code fence, and the pattern an action comes from: the
  file pattern gives the types file, glob and symbol.
\<close>

definition isExecFence :: "importAction \<Rightarrow> bool" where
  "isExecFence a = (case a_kind a of ExecutableCodeFence s l c \<Rightarrow> True | _ \<Rightarrow> False)"

definition patternOf :: "importAction \<Rightarrow> nat" where
  "patternOf a =
     (case a_kind a of
        FileImport p r \<Rightarrow> 0
      | GlobImport p \<Rightarrow> 0
      | SymbolImport p s \<Rightarrow> 0
      | UrlImport u \<Rightarrow> 1
      | CommandImport c \<Rightarrow> 2
      | ExecutableCodeFence s l c \<Rightarrow> 3)"

subsection \<open>Notions used to state the parser's properties\<close>

text \<open>A pattern whose matches are non-empty and lie inside the content.\<close>

definition properPattern :: "(string \<Rightarrow> nat \<Rightarrow> (nat \<times> string list) option) \<Rightarrow> bool" where
  "properPattern pat = (\<forall>content p r. pat content p = Some r \<longrightarrow> p < fst r \<and> fst r \<le> length content)"

text \<open>What is known of an action made from a match of the pattern \<open>pat\<close>.\<close>

definition fromMatch ::
  "(string \<Rightarrow> nat \<Rightarrow> (nat \<times> string list) option) \<Rightarrow> string \<Rightarrow> importAction \<Rightarrow> bool" where
  "fromMatch pat content a =
     (a_original a \<noteq> []
      \<and> a_index a + length (a_original a) \<le> length content
      \<and> take (length (a_original a)) (drop (a_index a) content) = a_original a
      \<and> pat content (a_index a) \<noteq> None)"

definition spanEnd :: "importAction \<Rightarrow> nat" where
  "spanEnd a = a_index a + length (a_original a)"

text \<open>The pattern that can match at an index, read off the first two characters.\<close>

definition patternAt :: "string \<Rightarrow> nat \<Rightarrow> nat" where
  "patternAt content i =
     (if charAt content i (CHR ''!'') then 2
      else if charAt content i (CHR 0x60) then 3
      else if charAt content (Suc i) (CHR ''h'') then 1
      else 0)"

text \<open>The actions before sorting.\<close>

definition allActions :: "string \<Rightarrow> importAction list" where
  "allActions content =
     fileActions content (findSafeRanges content)
     @ urlActions content (findSafeRanges content)
     @ commandActions content (findSafeRanges content)
     @ fenceActions content (unsafeStarts content (findSafeRanges content))"

text \<open>A list of actions of one pattern, in the order of the matches.\<close>

definition onePattern :: "string \<Rightarrow> nat \<Rightarrow> importAction list \<Rightarrow> bool" where
  "onePattern content k as =
     (sorted_wrt (\<lambda>a b. spanEnd a \<le> a_index b) as
      \<and> (\<forall>a\<in>set as. patternOf a = k \<and> patternAt content (a_index a) = k
              \<and> a_original a \<noteq> []
              \<and> a_index a + length (a_original a) \<le> length content
              \<and> take (length (a_original a)) (drop (a_index a) content) = a_original a))"

text \<open>
  Safe ranges that are well-formed: each is non-empty and inside the content, and
  they follow one another with at least one character in between.
\<close>

definition separated :: "nat \<Rightarrow> (nat \<times> nat) list \<Rightarrow> bool" where
  "separated n ranges =
     (sorted_wrt (\<lambda>a b. snd a < fst b) ranges
      \<and> (\<forall>r\<in>set ranges. fst r < snd r \<and> snd r \<le> n))"

text \<open>The invariant of the scanning loop.\<close>

definition scanInv :: "string \<Rightarrow> scanState \<Rightarrow> bool" where
  "scanInv content st =
     (separated (length content) (safeRanges st)
      \<and> pos st \<le> length content
      \<and> (if scanCtx st = Normal
          then rangeStart st \<le> pos st \<and> (\<forall>r\<in>set (safeRanges st). snd r < rangeStart st)
          else (\<forall>r\<in>set (safeRanges st). snd r < pos st)))"

text \<open>Each safe range collected so far ends where the loop stood in normal context.\<close>

definition endsVisited :: "string \<Rightarrow> scanState set \<Rightarrow> scanState \<Rightarrow> bool" where
  "endsVisited content T st =
     (\<forall>r\<in>set (safeRanges st). \<exists>s\<in>T. pos s = snd r \<and> scanCtx s = Normal \<and> pos s < length content)"

subsection \<open>Fenced blocks as the specification defines them\<close>

text \<open>
  The specification (section 4.2) defines a fenced block by lines: it opens on a
  line that starts with three or more consecutive backticks or tildes, optionally
  preceded by up to three spaces, and closes on the next line that starts with at
  least as many fence characters of the same kind. The definitions below follow
  these words, not the scanning loop, and serve to compare the two.
\<close>

definition specFenceOpening :: "string \<Rightarrow> (char \<times> nat) option" where
  "specFenceOpening line =
     (let spaces = length (takeWhile (\<lambda>c. c = CHR '' '') line);
          rest = drop spaces line
      in case rest of
           [] \<Rightarrow> None
         | c # cs \<Rightarrow>
             if spaces \<le> 3 \<and> (c = CHR 0x60 \<or> c = CHR ''~'')
                \<and> 3 \<le> length (takeWhile (\<lambda>x. x = c) rest)
             then Some (c, length (takeWhile (\<lambda>x. x = c) rest))
             else None)"

definition specFenceClosing :: "char \<times> nat \<Rightarrow> string \<Rightarrow> bool" where
  "specFenceClosing fence line = (snd fence \<le> length (takeWhile (\<lambda>x. x = fst fence) line))"

text \<open>
  For each line, whether it belongs to a fenced block (the opening and the closing
  line included), given the fence that is open before the first line.
\<close>

fun specFencedLines :: "(char \<times> nat) option \<Rightarrow> string list \<Rightarrow> bool list" where
  "specFencedLines fence [] = []"
| "specFencedLines None (l # ls) =
     (case specFenceOpening l of
        Some f \<Rightarrow> True # specFencedLines (Some f) ls
      | None \<Rightarrow> False # specFencedLines None ls)"
| "specFencedLines (Some f) (l # ls) =
     True # (if specFenceClosing f l then specFencedLines None ls
             else specFencedLines (Some f) ls)"

text \<open>The number of the line an offset lies on, from 0.\<close>

definition lineOf :: "string \<Rightarrow> nat \<Rightarrow> nat" where
  "lineOf content i = length (filter (\<lambda>c. c = NL) (take i content))"

definition specInFencedBlock :: "string \<Rightarrow> nat \<Rightarrow> bool" where
  "specInFencedBlock content i =
     (i < length content \<and> specFencedLines None (splitOn NL content) ! lineOf content i)"

text \<open>
  A document of four lines: some text that ends in three backticks, then a fenced
  block whose only line is \<open>@./a\<close>.
\<close>

definition nestedDoc :: string where
  "nestedDoc = ''x ```'' @ [NL] @ ''```'' @ [NL] @ ''@./a'' @ [NL] @ ''```'' @ [NL]"

section \<open>Properties of the parser\<close>

lemma runLength_le: "runLength c content i \<le> length content - i"
  unfolding runLength_def by (rule order_trans [OF length_takeWhile_le]) simp

lemma nonSpaceEnd_le: "i \<le> length content \<Longrightarrow> nonSpaceEnd content i \<le> length content"
proof -
  assume "i \<le> length content"
  moreover have "length (takeWhile (\<lambda>c. \<not> isSpace c) (drop i content)) \<le> length content - i"
    by (rule order_trans [OF length_takeWhile_le]) simp
  ultimately show ?thesis by (simp add: nonSpaceEnd_def)
qed

lemma skipToNewline_bounds:
  "i \<le> skipToNewline content i" "i \<le> length content \<Longrightarrow> skipToNewline content i \<le> length content"
proof -
  show "i \<le> skipToNewline content i" by (simp add: skipToNewline_def)
  assume "i \<le> length content"
  moreover have "length (takeWhile (\<lambda>x. x \<noteq> NL) (drop i content)) \<le> length content - i"
    by (rule order_trans [OF length_takeWhile_le]) simp
  ultimately show "skipToNewline content i \<le> length content" by (simp add: skipToNewline_def)
qed

lemma stringAt_length:
  assumes "stringAt content i w" "w \<noteq> []"
  shows "i + length w \<le> length content"
proof -
  have "length (take (length w) (drop i content)) = length w"
    using assms(1) by (simp add: stringAt_def)
  then show ?thesis
    using assms(2) by (cases "i \<le> length content") (auto simp: min_def split: if_splits)
qed

lemma findBackticks_Some:
  assumes "findBackticks content n from = Some e"
  shows "from \<le> e" "e < length content" "n \<le> runLength (CHR 0x60) content e" "e + n \<le> length content"
proof -
  from assms have "e \<in> set [from..<length content] \<and> n \<le> runLength (CHR 0x60) content e"
    unfolding findBackticks_def by (auto simp: find_Some_iff)
  then show "from \<le> e" "e < length content" "n \<le> runLength (CHR 0x60) content e" by auto
  then show "e + n \<le> length content" using runLength_le [of "CHR 0x60" content e] by linarith
qed

lemma fileImportAt_Some:
  assumes "fileImportAt content p = Some r"
  shows "p < fst r" "fst r \<le> length content" "charAt content p (CHR ''@'')"
    "charAt content (Suc p) (CHR ''~'') \<or> charAt content (Suc p) (CHR ''.'')
       \<or> charAt content (Suc p) (CHR ''/'')"
proof -
  let ?q = "if charAt content (Suc p) (CHR ''~'') then Suc (Suc p) else Suc p"
  from assms have at: "charAt content p (CHR ''@'')"
    and q: "charAt content ?q (CHR ''.'') \<or> charAt content ?q (CHR ''/'')"
    and e: "Suc ?q < nonSpaceEnd content (Suc ?q)" "fst r = nonSpaceEnd content (Suc ?q)"
    by (auto simp: fileImportAt_def Let_def split: if_splits)
  show "charAt content p (CHR ''@'')" by (rule at)
  show "p < fst r" using e by (auto split: if_splits)
  have "Suc ?q \<le> length content" using q by (auto simp: charAt_def split: if_splits)
  then show "fst r \<le> length content" using e(2) nonSpaceEnd_le by simp
  show "charAt content (Suc p) (CHR ''~'') \<or> charAt content (Suc p) (CHR ''.'')
       \<or> charAt content (Suc p) (CHR ''/'')"
    using q by (auto split: if_splits)
qed

lemma urlImportAt_Some:
  assumes "urlImportAt content p = Some r"
  shows "p < fst r" "fst r \<le> length content" "charAt content p (CHR ''@'')"
    "charAt content (Suc p) (CHR ''h'')"
proof -
  let ?q = "if charAt content (p + 5) (CHR ''s'') then p + 6 else p + 5"
  from assms have at: "charAt content p (CHR ''@'')" "stringAt content (Suc p) ''http''"
    and q: "stringAt content ?q ''://''"
    and e: "?q + 3 < nonSpaceEnd content (?q + 3)" "fst r = nonSpaceEnd content (?q + 3)"
    by (auto simp: urlImportAt_def Let_def split: if_splits)
  show "charAt content p (CHR ''@'')" by (rule at)
  show "p < fst r" using e by (auto split: if_splits)
  have "?q + 3 \<le> length content" using stringAt_length [OF q] by simp
  then show "fst r \<le> length content" using e(2) nonSpaceEnd_le by simp
  have l: "Suc p + 4 \<le> length content" using stringAt_length [OF at(2)] by simp
  then have "drop (Suc p) content = content ! Suc p # drop (Suc (Suc p)) content"
    by (simp add: Cons_nth_drop_Suc)
  then show "charAt content (Suc p) (CHR ''h'')"
    using at(2) l by (simp add: stringAt_def charAt_def)
qed

lemma delimiterTry_Some:
  "delimiterTry content p n = Some r \<Longrightarrow> p < fst r \<and> fst r \<le> length content"
proof (induction n)
  case 0
  then show ?case by simp
next
  case (Suc n)
  show ?case
  proof (cases "findBackticks content (Suc n) (p + Suc n + 2)")
    case None
    then show ?thesis using Suc by simp
  next
    case (Some e)
    then have "fst r = e + Suc n" using Suc.prems by auto
    then show ?thesis using findBackticks_Some [OF Some] by simp
  qed
qed

lemma commandInlineAt_Some:
  assumes "commandInlineAt content p = Some r"
  shows "p < fst r" "fst r \<le> length content" "charAt content p (CHR ''!'')"
  using assms delimiterTry_Some [of content p _ r]
  by (auto simp: commandInlineAt_def split: if_splits)

lemma fenceAttempt_Some:
  assumes "fenceAttempt content p n = Some r"
  shows "p < fst r \<and> fst r \<le> length content"
proof -
  define q where "q = p + n + length (takeWhile (\<lambda>c. \<not> isLineTerminator c) (drop (p + n) content))"
  define r' where "r' = skipToNewline content (q + 3)"
  have fa: "fenceAttempt content p n =
     (if charAt content q NL \<and> stringAt content (Suc q) ''#!''
      then (if q + 3 < r' \<and> r' < length content
            then (case findBackticks content n (Suc r') of
                    Some e \<Rightarrow> Some (e + n,
                                          [substring content p (p + n),
                                           substring content (p + n) q,
                                           substring content (Suc q) r',
                                           substring content (Suc r') e])
                  | None \<Rightarrow> None)
            else None)
      else None)"
    unfolding fenceAttempt_def q_def r'_def Let_def ..
  show ?thesis
  proof (cases "findBackticks content n (Suc r')")
    case None
    then show ?thesis using assms unfolding fa by (simp split: if_splits)
  next
    case (Some e)
    then have "fst r = e + n" using assms unfolding fa by (auto split: if_splits)
    moreover have "p \<le> q" by (simp add: q_def)
    moreover have "q + 3 \<le> r'" unfolding r'_def by (rule skipToNewline_bounds)
    ultimately show ?thesis using findBackticks_Some [OF Some] by simp
  qed
qed

lemma fenceTry_Some:
  "fenceTry content p m = Some r \<Longrightarrow> p < fst r \<and> fst r \<le> length content"
proof (induction m)
  case 0
  then show ?case by simp
next
  case (Suc m)
  then show ?case
    by (cases "fenceAttempt content p (Suc m + 2)") (auto dest: fenceAttempt_Some)
qed

lemma executableFenceAt_Some:
  assumes "executableFenceAt content p = Some r"
  shows "p < fst r" "fst r \<le> length content" "charAt content p (CHR 0x60)"
proof -
  have t: "fenceTry content p (runLength (CHR 0x60) content p - 2) = Some r"
    using assms by (simp add: executableFenceAt_def)
  show "p < fst r" "fst r \<le> length content"
    using fenceTry_Some [OF t] by simp_all
  have "runLength (CHR 0x60) content p - 2 \<noteq> 0"
  proof
    assume "runLength (CHR 0x60) content p - 2 = 0"
    then show False using t by simp
  qed
  then have "takeWhile (\<lambda>x. x = CHR 0x60) (drop p content) \<noteq> []"
    by (auto simp: runLength_def)
  then obtain x xs where d: "drop p content = x # xs" and "x = CHR 0x60"
    by (cases "drop p content") (auto split: if_splits)
  have "p < length content" using d by (cases "p < length content") auto
  then have "content ! p = x" using d by (metis Cons_nth_drop_Suc list.inject)
  then show "charAt content p (CHR 0x60)"
    using \<open>p < length content\<close> \<open>x = CHR 0x60\<close> by (simp add: charAt_def)
qed

lemma properPattern_file: "properPattern fileImportAt"
  unfolding properPattern_def using fileImportAt_Some(1,2) by blast

lemma properPattern_url: "properPattern urlImportAt"
  unfolding properPattern_def using urlImportAt_Some(1,2) by blast

lemma properPattern_command: "properPattern commandInlineAt"
  unfolding properPattern_def using commandInlineAt_Some(1,2) by blast

lemma properPattern_fence: "properPattern executableFenceAt"
  unfolding properPattern_def using executableFenceAt_Some(1,2) by blast

lemma matchesFrom_outside: "length content \<le> p \<Longrightarrow> matchesFrom pat content p = []"
  by (subst matchesFrom.simps) simp

lemma matchesFrom_None:
  "p < length content \<Longrightarrow> pat content p = None \<Longrightarrow>
   matchesFrom pat content p = matchesFrom pat content (Suc p)"
  by (subst matchesFrom.simps) simp

lemma matchesFrom_Some:
  "p < length content \<Longrightarrow> pat content p = Some r \<Longrightarrow>
   matchesFrom pat content p =
     \<lparr>m_index = p, m_end = fst r, m_groups = snd r\<rparr> # matchesFrom pat content (max (Suc p) (fst r))"
  by (subst matchesFrom.simps) simp

lemma matchesFrom_props:
  assumes "properPattern pat"
  shows "\<forall>m\<in>set (matchesFrom pat content p).
           p \<le> m_index m \<and> m_index m < m_end m \<and> m_end m \<le> length content
         \<and> pat content (m_index m) = Some (m_end m, m_groups m)"
  using assms
proof (induction pat content p rule: matchesFrom.induct)
  case (1 pat content p)
  show ?case
  proof (cases "length content \<le> p")
    case True
    then show ?thesis by (simp add: matchesFrom_outside)
  next
    case False
    note inside = False
    show ?thesis
    proof (cases "pat content p")
      case None
      have "\<forall>m\<in>set (matchesFrom pat content (Suc p)).
           Suc p \<le> m_index m \<and> m_index m < m_end m \<and> m_end m \<le> length content
         \<and> pat content (m_index m) = Some (m_end m, m_groups m)"
        by (rule "1.IH"(1) [OF inside None "1.prems"])
      then show ?thesis
        using inside None by (auto simp: matchesFrom_None)
    next
      case (Some r)
      have b: "p < fst r" "fst r \<le> length content"
        using "1.prems" Some unfolding properPattern_def by blast+
      have "\<forall>m\<in>set (matchesFrom pat content (max (Suc p) (fst r))).
           max (Suc p) (fst r) \<le> m_index m \<and> m_index m < m_end m \<and> m_end m \<le> length content
         \<and> pat content (m_index m) = Some (m_end m, m_groups m)"
        by (rule "1.IH"(2) [OF inside Some "1.prems"])
      then show ?thesis
        using inside Some b by (auto simp: matchesFrom_Some)
    qed
  qed
qed

lemma matchesFrom_sorted:
  assumes "properPattern pat"
  shows "sorted_wrt (\<lambda>a b. m_end a \<le> m_index b) (matchesFrom pat content p)"
  using assms
proof (induction pat content p rule: matchesFrom.induct)
  case (1 pat content p)
  show ?case
  proof (cases "length content \<le> p")
    case True
    then show ?thesis by (simp add: matchesFrom_outside)
  next
    case False
    note inside = False
    show ?thesis
    proof (cases "pat content p")
      case None
      then show ?thesis
        using "1.IH"(1) [OF inside None "1.prems"] inside by (simp add: matchesFrom_None)
    next
      case (Some r)
      have "\<forall>m\<in>set (matchesFrom pat content (max (Suc p) (fst r))). max (Suc p) (fst r) \<le> m_index m"
        using matchesFrom_props [OF "1.prems", of content "max (Suc p) (fst r)"] by blast
      then have "\<forall>m\<in>set (matchesFrom pat content (max (Suc p) (fst r))). fst r \<le> m_index m"
        by auto
      then show ?thesis
        using "1.IH"(2) [OF inside Some "1.prems"] inside Some by (simp add: matchesFrom_Some)
    qed
  qed
qed

lemma matched_length:
  "m_index m < m_end m \<Longrightarrow> m_end m \<le> length content \<Longrightarrow>
   length (matched content m) = m_end m - m_index m"
  by (simp add: matched_def)

lemma actions_of_matches:
  assumes pp: "properPattern pat"
    and f: "\<And>m. a_index (f m) = m_index m \<and> a_original (f m) = matched content m"
  shows "sorted_wrt (\<lambda>a b. spanEnd a \<le> a_index b) (map f (filter P (matchesFrom pat content 0)))"
    and "\<forall>a\<in>set (map f (filter P (matchesFrom pat content 0))). fromMatch pat content a"
proof -
  let ?ms = "matchesFrom pat content 0"
  note props = matchesFrom_props [OF pp, of content 0]
  have e: "spanEnd (f m) = m_end m" if "m \<in> set ?ms" for m
    using props that f [of m] by (auto simp: spanEnd_def matched_length)
  have "sorted_wrt (\<lambda>a b. m_end a \<le> m_index b) (filter P ?ms)"
    using matchesFrom_sorted [OF pp] by (rule sorted_wrt_filter)
  then have "sorted_wrt (\<lambda>x y. spanEnd (f x) \<le> a_index (f y)) (filter P ?ms)"
    by (rule sorted_wrt_mono_rel [rotated]) (use e f in auto)
  then show "sorted_wrt (\<lambda>a b. spanEnd a \<le> a_index b) (map f (filter P ?ms))"
    by (simp add: sorted_wrt_map)
  show "\<forall>a\<in>set (map f (filter P ?ms)). fromMatch pat content a"
  proof
    fix a assume "a \<in> set (map f (filter P ?ms))"
    then obtain m where m: "m \<in> set ?ms" "a = f m" by auto
    then have b: "m_index m < m_end m" "m_end m \<le> length content"
      "pat content (m_index m) = Some (m_end m, m_groups m)"
      using props by auto
    have l: "length (a_original a) = m_end m - m_index m" "a_index a = m_index m"
      "a_original a = matched content m"
      using m f [of m] b by (simp_all add: matched_length)
    show "fromMatch pat content a"
      unfolding fromMatch_def using l b by (auto simp: matched_def)
  qed
qed

lemma parseFileImportPath_fields:
  "a_index (parseFileImportPath full path i) = i"
  "a_original (parseFileImportPath full path i) = full"
  "patternOf (parseFileImportPath full path i) = 0"
  "\<not> isExecFence (parseFileImportPath full path i)"
  by (auto simp: parseFileImportPath_def patternOf_def isExecFence_def split: option.splits)

lemma fileActions_props:
  "sorted_wrt (\<lambda>a b. spanEnd a \<le> a_index b) (fileActions content ranges)"
  "\<forall>a\<in>set (fileActions content ranges). fromMatch fileImportAt content a"
  "\<forall>a\<in>set (fileActions content ranges). patternOf a = 0 \<and> \<not> isExecFence a
      \<and> isInSafeRange (a_index a) ranges"
proof -
  show "sorted_wrt (\<lambda>a b. spanEnd a \<le> a_index b) (fileActions content ranges)"
    unfolding fileActions_def
    by (rule actions_of_matches(1) [OF properPattern_file]) (simp add: parseFileImportPath_fields)
  show "\<forall>a\<in>set (fileActions content ranges). fromMatch fileImportAt content a"
    unfolding fileActions_def
    by (rule actions_of_matches(2) [OF properPattern_file]) (simp add: parseFileImportPath_fields)
  show "\<forall>a\<in>set (fileActions content ranges). patternOf a = 0 \<and> \<not> isExecFence a
      \<and> isInSafeRange (a_index a) ranges"
    unfolding fileActions_def by (auto simp: parseFileImportPath_fields)
qed

lemma urlActions_props:
  "sorted_wrt (\<lambda>a b. spanEnd a \<le> a_index b) (urlActions content ranges)"
  "\<forall>a\<in>set (urlActions content ranges). fromMatch urlImportAt content a"
  "\<forall>a\<in>set (urlActions content ranges). patternOf a = 1 \<and> \<not> isExecFence a
      \<and> isInSafeRange (a_index a) ranges"
proof -
  show "sorted_wrt (\<lambda>a b. spanEnd a \<le> a_index b) (urlActions content ranges)"
    unfolding urlActions_def
    by (rule actions_of_matches(1) [OF properPattern_url]) simp
  show "\<forall>a\<in>set (urlActions content ranges). fromMatch urlImportAt content a"
    unfolding urlActions_def
    by (rule actions_of_matches(2) [OF properPattern_url]) simp
  show "\<forall>a\<in>set (urlActions content ranges). patternOf a = 1 \<and> \<not> isExecFence a
      \<and> isInSafeRange (a_index a) ranges"
    unfolding urlActions_def by (auto simp: patternOf_def isExecFence_def)
qed

lemma commandActions_props:
  "sorted_wrt (\<lambda>a b. spanEnd a \<le> a_index b) (commandActions content ranges)"
  "\<forall>a\<in>set (commandActions content ranges). fromMatch commandInlineAt content a"
  "\<forall>a\<in>set (commandActions content ranges). patternOf a = 2 \<and> \<not> isExecFence a
      \<and> isInSafeRange (a_index a) ranges"
proof -
  show "sorted_wrt (\<lambda>a b. spanEnd a \<le> a_index b) (commandActions content ranges)"
    unfolding commandActions_def
    by (rule actions_of_matches(1) [OF properPattern_command]) simp
  show "\<forall>a\<in>set (commandActions content ranges). fromMatch commandInlineAt content a"
    unfolding commandActions_def
    by (rule actions_of_matches(2) [OF properPattern_command]) simp
  show "\<forall>a\<in>set (commandActions content ranges). patternOf a = 2 \<and> \<not> isExecFence a
      \<and> isInSafeRange (a_index a) ranges"
    unfolding commandActions_def by (auto simp: patternOf_def isExecFence_def)
qed

lemma fenceActions_props:
  "sorted_wrt (\<lambda>a b. spanEnd a \<le> a_index b) (fenceActions content starts)"
  "\<forall>a\<in>set (fenceActions content starts). fromMatch executableFenceAt content a"
  "\<forall>a\<in>set (fenceActions content starts). patternOf a = 3 \<and> isExecFence a
      \<and> a_index a \<in> set starts"
proof -
  show "sorted_wrt (\<lambda>a b. spanEnd a \<le> a_index b) (fenceActions content starts)"
    unfolding fenceActions_def
    by (rule actions_of_matches(1) [OF properPattern_fence]) simp
  show "\<forall>a\<in>set (fenceActions content starts). fromMatch executableFenceAt content a"
    unfolding fenceActions_def
    by (rule actions_of_matches(2) [OF properPattern_fence]) simp
  show "\<forall>a\<in>set (fenceActions content starts). patternOf a = 3 \<and> isExecFence a
      \<and> a_index a \<in> set starts"
    unfolding fenceActions_def by (auto simp: patternOf_def isExecFence_def)
qed

lemma patternAt_file: "fromMatch fileImportAt content a \<Longrightarrow> patternAt content (a_index a) = 0"
proof -
  assume "fromMatch fileImportAt content a"
  then obtain r where "fileImportAt content (a_index a) = Some r"
    by (auto simp: fromMatch_def)
  from fileImportAt_Some(3,4) [OF this] show ?thesis
    by (auto simp: patternAt_def charAt_def)
qed

lemma patternAt_url: "fromMatch urlImportAt content a \<Longrightarrow> patternAt content (a_index a) = 1"
proof -
  assume "fromMatch urlImportAt content a"
  then obtain r where "urlImportAt content (a_index a) = Some r"
    by (auto simp: fromMatch_def)
  from urlImportAt_Some(3,4) [OF this] show ?thesis
    by (auto simp: patternAt_def charAt_def)
qed

lemma patternAt_command: "fromMatch commandInlineAt content a \<Longrightarrow> patternAt content (a_index a) = 2"
proof -
  assume "fromMatch commandInlineAt content a"
  then obtain r where "commandInlineAt content (a_index a) = Some r"
    by (auto simp: fromMatch_def)
  from commandInlineAt_Some(3) [OF this] show ?thesis
    by (auto simp: patternAt_def charAt_def)
qed

lemma patternAt_fence: "fromMatch executableFenceAt content a \<Longrightarrow> patternAt content (a_index a) = 3"
proof -
  assume "fromMatch executableFenceAt content a"
  then obtain r where "executableFenceAt content (a_index a) = Some r"
    by (auto simp: fromMatch_def)
  from executableFenceAt_Some(3) [OF this] show ?thesis
    by (auto simp: patternAt_def charAt_def)
qed

lemma parseImports_sorted_all: "parseImports content = sort_key a_index (allActions content)"
  by (simp add: parseImports_def allActions_def Let_def)

lemma onePattern_lists:
  "onePattern content 0 (fileActions content ranges)"
  "onePattern content 1 (urlActions content ranges)"
  "onePattern content 2 (commandActions content ranges)"
  "onePattern content 3 (fenceActions content starts)"
  unfolding onePattern_def
  using fileActions_props [of content ranges] urlActions_props [of content ranges]
        commandActions_props [of content ranges] fenceActions_props [of content starts]
        patternAt_file [of content] patternAt_url [of content]
        patternAt_command [of content] patternAt_fence [of content]
  by (auto simp: fromMatch_def)

lemma onePattern_distinct:
  assumes "onePattern content k as"
  shows "distinct (map a_index as)"
proof -
  have s: "sorted_wrt (\<lambda>a b. spanEnd a \<le> a_index b) as"
    and ne: "\<forall>a\<in>set as. a_index a < spanEnd a"
    using assms by (auto simp: onePattern_def spanEnd_def)
  from s have "sorted_wrt (\<lambda>a b. a_index a < a_index b) as"
    by (rule sorted_wrt_mono_rel [rotated]) (use ne in fastforce)
  then have "sorted_wrt (<) (map a_index as)" by (simp add: sorted_wrt_map)
  then show ?thesis by (simp add: strict_sorted_iff)
qed

lemma sorted_wrt_two:
  "sorted_wrt R xs \<Longrightarrow> x \<in> set xs \<Longrightarrow> y \<in> set xs \<Longrightarrow> x = y \<or> R x y \<or> R y x"
  by (induction xs) auto

lemma onePattern_apart:
  assumes "onePattern content k as" "a \<in> set as" "b \<in> set as" "a_index a < a_index b"
  shows "spanEnd a \<le> a_index b"
proof -
  have s: "sorted_wrt (\<lambda>a b. spanEnd a \<le> a_index b) as"
    and ne: "a_index b < spanEnd b"
    using assms by (auto simp: onePattern_def spanEnd_def)
  from sorted_wrt_two [OF s assms(2,3)] assms(4) ne show ?thesis by auto
qed

lemma onePattern_indices_differ:
  assumes "onePattern content j as" "onePattern content k bs" "j \<noteq> k"
  shows "set (map a_index as) \<inter> set (map a_index bs) = {}"
  using assms by (fastforce simp: onePattern_def)

lemma allActions_distinct: "distinct (map a_index (allActions content))"
proof -
  let ?r = "findSafeRanges content"
  let ?u = "unsafeStarts content ?r"
  note l = onePattern_lists(1) [of content ?r] onePattern_lists(2) [of content ?r]
           onePattern_lists(3) [of content ?r] onePattern_lists(4) [of content ?u]
  have "distinct (map a_index (fileActions content ?r))"
       "distinct (map a_index (urlActions content ?r))"
       "distinct (map a_index (commandActions content ?r))"
       "distinct (map a_index (fenceActions content ?u))"
    using l by (auto intro: onePattern_distinct)
  moreover have
    "set (map a_index (fileActions content ?r)) \<inter> set (map a_index (urlActions content ?r)) = {}"
    by (rule onePattern_indices_differ [OF l(1) l(2)]) simp
  moreover have
    "set (map a_index (fileActions content ?r)) \<inter> set (map a_index (commandActions content ?r)) = {}"
    by (rule onePattern_indices_differ [OF l(1) l(3)]) simp
  moreover have
    "set (map a_index (fileActions content ?r)) \<inter> set (map a_index (fenceActions content ?u)) = {}"
    by (rule onePattern_indices_differ [OF l(1) l(4)]) simp
  moreover have
    "set (map a_index (urlActions content ?r)) \<inter> set (map a_index (commandActions content ?r)) = {}"
    by (rule onePattern_indices_differ [OF l(2) l(3)]) simp
  moreover have
    "set (map a_index (urlActions content ?r)) \<inter> set (map a_index (fenceActions content ?u)) = {}"
    by (rule onePattern_indices_differ [OF l(2) l(4)]) simp
  moreover have
    "set (map a_index (commandActions content ?r)) \<inter> set (map a_index (fenceActions content ?u)) = {}"
    by (rule onePattern_indices_differ [OF l(3) l(4)]) simp
  ultimately show ?thesis
    unfolding allActions_def map_append distinct_append set_append by blast
qed

lemma allActions_cases:
  assumes "a \<in> set (allActions content)"
  obtains k as where "onePattern content k as" "a \<in> set as" "patternOf a = k"
    "set as \<subseteq> set (allActions content)"
    "\<And>b. b \<in> set (allActions content) \<Longrightarrow> patternOf b = k \<Longrightarrow> b \<in> set as"
proof -
  let ?r = "findSafeRanges content"
  let ?u = "unsafeStarts content ?r"
  note l = onePattern_lists(1) [of content ?r] onePattern_lists(2) [of content ?r]
           onePattern_lists(3) [of content ?r] onePattern_lists(4) [of content ?u]
  have p: "\<forall>b\<in>set (fileActions content ?r). patternOf b = 0"
          "\<forall>b\<in>set (urlActions content ?r). patternOf b = 1"
          "\<forall>b\<in>set (commandActions content ?r). patternOf b = 2"
          "\<forall>b\<in>set (fenceActions content ?u). patternOf b = 3"
    using l by (auto simp: onePattern_def)
  from assms consider "a \<in> set (fileActions content ?r)" | "a \<in> set (urlActions content ?r)"
    | "a \<in> set (commandActions content ?r)" | "a \<in> set (fenceActions content ?u)"
    by (auto simp: allActions_def)
  then show ?thesis
  proof cases
    case 1
    show ?thesis
      by (rule that [OF l(1) 1]) (use p 1 in \<open>auto simp: allActions_def\<close>)
  next
    case 2
    show ?thesis
      by (rule that [OF l(2) 2]) (use p 2 in \<open>auto simp: allActions_def\<close>)
  next
    case 3
    show ?thesis
      by (rule that [OF l(3) 3]) (use p 3 in \<open>auto simp: allActions_def\<close>)
  next
    case 4
    show ?thesis
      by (rule that [OF l(4) 4]) (use p 4 in \<open>auto simp: allActions_def\<close>)
  qed
qed

lemma separated_snoc:
  assumes "separated n ranges" "\<forall>r\<in>set ranges. snd r < a" "a < b" "b \<le> n"
  shows "separated n (ranges @ [(a, b)])"
  using assms by (auto simp: separated_def sorted_wrt_append)

lemma pushRange_inv:
  assumes "scanInv content st" "scanCtx st = Normal" "pos st < length content"
  shows "separated (length content) (pushRange st)"
    and "\<forall>r\<in>set (pushRange st). snd r \<le> pos st"
proof -
  have s: "separated (length content) (safeRanges st)"
    and r: "rangeStart st \<le> pos st" "\<forall>r\<in>set (safeRanges st). snd r < rangeStart st"
    using assms(1,2) by (auto simp: scanInv_def)
  show "separated (length content) (pushRange st)"
  proof (cases "rangeStart st < pos st")
    case True
    then show ?thesis
      using separated_snoc [OF s r(2) True] assms(3) by (simp add: pushRange_def)
  next
    case False
    then show ?thesis using s by (simp add: pushRange_def)
  qed
  show "\<forall>r\<in>set (pushRange st). snd r \<le> pos st"
  proof
    fix x assume "x \<in> set (pushRange st)"
    then have "x \<in> set (safeRanges st) \<or> x = (rangeStart st, pos st)"
      by (auto simp: pushRange_def split: if_splits)
    then show "snd x \<le> pos st" using r by fastforce
  qed
qed

lemma runLength_fits: "i + runLength c content i \<le> length content" if "i \<le> length content"
  using runLength_le [of c content i] that by linarith

lemma scanStep_inv:
  assumes inv: "scanInv content st" and inside: "pos st < length content"
  shows "scanInv content (scanStep content st)"
proof (cases "scanCtx st")
  case Normal
  note p = pushRange_inv [OF inv Normal inside]
  let ?c = "content ! pos st"
  have rl: "pos st + runLength ?c content (pos st) \<le> length content"
    using inside by (intro runLength_fits) simp
  have old: "separated (length content) (safeRanges st)" "rangeStart st \<le> pos st"
    "\<forall>r\<in>set (safeRanges st). snd r < rangeStart st"
    using inv Normal by (auto simp: scanInv_def)
  consider (fence) "(?c = CHR 0x60 \<or> ?c = CHR ''~'') \<and> 3 \<le> runLength ?c content (pos st)"
    | (inline) "\<not> ((?c = CHR 0x60 \<or> ?c = CHR ''~'') \<and> 3 \<le> runLength ?c content (pos st))"
        "?c = CHR 0x60 \<and> \<not> (Suc (pos st) < length content \<and> content ! Suc (pos st) = CHR 0x60)"
    | (plain) "\<not> ((?c = CHR 0x60 \<or> ?c = CHR ''~'') \<and> 3 \<le> runLength ?c content (pos st))"
        "\<not> (?c = CHR 0x60 \<and> \<not> (Suc (pos st) < length content \<and> content ! Suc (pos st) = CHR 0x60))"
    by blast
  then show ?thesis
  proof cases
    case fence
    then have st': "scanStep content st =
        st\<lparr>safeRanges := pushRange st, scanCtx := FencedCode, fenceChar := Some ?c,
           fenceLen := runLength ?c content (pos st),
           pos := skipToNewline content (pos st + runLength ?c content (pos st))\<rparr>"
      using Normal by (auto simp: scanStep_def Let_def)
    have "pos st + 3 \<le> skipToNewline content (pos st + runLength ?c content (pos st))"
      using fence skipToNewline_bounds(1) [of "pos st + runLength ?c content (pos st)" content]
      by linarith
    moreover have "skipToNewline content (pos st + runLength ?c content (pos st)) \<le> length content"
      using rl by (rule skipToNewline_bounds(2))
    ultimately show ?thesis
      unfolding st' scanInv_def using p by fastforce
  next
    case inline
    then have st': "scanStep content st =
        st\<lparr>safeRanges := pushRange st, scanCtx := InlineCode, pos := Suc (pos st)\<rparr>"
      using Normal by (auto simp: scanStep_def Let_def)
    show ?thesis unfolding st' scanInv_def using p inside by fastforce
  next
    case plain
    then have st': "scanStep content st = st\<lparr>pos := Suc (pos st)\<rparr>"
      using Normal by (auto simp: scanStep_def Let_def)
    show ?thesis unfolding st' scanInv_def using old Normal inside by auto
  qed
next
  case FencedCode
  let ?c = "content ! pos st"
  have old: "separated (length content) (safeRanges st)"
    "\<forall>r\<in>set (safeRanges st). snd r < pos st"
    using inv FencedCode by (auto simp: scanInv_def)
  have rl: "pos st + runLength ?c content (pos st) \<le> length content"
    using inside by (intro runLength_fits) simp
  have rp: "0 < runLength ?c content (pos st)" using inside by (rule runLength_at)
  let ?close = "(pos st = 0 \<or> content ! (pos st - 1) = NL) \<and> Some ?c = fenceChar st
             \<and> fenceLen st \<le> runLength ?c content (pos st)"
  show ?thesis
  proof (cases ?close)
    case True
    let ?j = "skipToNewline content (pos st + runLength ?c content (pos st))"
    let ?j' = "if ?j < length content then Suc ?j else ?j"
    have st': "scanStep content st = st\<lparr>scanCtx := Normal, rangeStart := ?j', pos := ?j'\<rparr>"
      using FencedCode True by (auto simp: scanStep_def Let_def)
    have "pos st < ?j"
      using rp skipToNewline_bounds(1) [of "pos st + runLength ?c content (pos st)" content]
      by linarith
    moreover have "?j \<le> length content" using rl by (rule skipToNewline_bounds(2))
    ultimately have "pos st < ?j'" "?j' \<le> length content" by auto
    then show ?thesis unfolding st' scanInv_def using old by fastforce
  next
    case False
    then have st': "scanStep content st = st\<lparr>pos := Suc (pos st)\<rparr>"
      using FencedCode by (auto simp: scanStep_def Let_def)
    show ?thesis unfolding st' scanInv_def using old FencedCode inside by fastforce
  qed
next
  case InlineCode
  have old: "separated (length content) (safeRanges st)"
    "\<forall>r\<in>set (safeRanges st). snd r < pos st"
    using inv InlineCode by (auto simp: scanInv_def)
  consider (close) "content ! pos st = CHR 0x60"
    | (newline) "content ! pos st \<noteq> CHR 0x60" "content ! pos st = NL"
    | (stay) "content ! pos st \<noteq> CHR 0x60" "content ! pos st \<noteq> NL"
    by blast
  then show ?thesis
  proof cases
    case close
    then have st': "scanStep content st =
        st\<lparr>scanCtx := Normal, rangeStart := Suc (pos st), pos := Suc (pos st)\<rparr>"
      using InlineCode by (auto simp: scanStep_def Let_def)
    show ?thesis unfolding st' scanInv_def using old inside by fastforce
  next
    case newline
    then have st': "scanStep content st =
        st\<lparr>scanCtx := Normal, rangeStart := pos st, pos := Suc (pos st)\<rparr>"
      using InlineCode by (auto simp: scanStep_def Let_def)
    show ?thesis unfolding st' scanInv_def using old inside by fastforce
  next
    case stay
    then have st': "scanStep content st = st\<lparr>pos := Suc (pos st)\<rparr>"
      using InlineCode by (auto simp: scanStep_def Let_def)
    show ?thesis unfolding st' scanInv_def using old InlineCode inside by fastforce
  qed
qed

lemma scanLoop_inv: "scanInv content st \<Longrightarrow> scanInv content (scanLoop content st)"
proof (induction content st rule: scanLoop.induct)
  case (1 content st)
  show ?case
  proof (cases "pos st < length content")
    case True
    then show ?thesis
      using "1.IH" [OF True scanStep_inv [OF "1.prems" True]]
      by (subst scanLoop.simps) simp
  next
    case False
    then show ?thesis using "1.prems" by (subst scanLoop.simps) simp
  qed
qed

lemma findSafeRanges_separated: "separated (length content) (findSafeRanges content)"
proof -
  let ?st = "scanLoop content initialScan"
  have "scanInv content initialScan"
    by (simp add: scanInv_def initialScan_def separated_def)
  then have inv: "scanInv content ?st" by (rule scanLoop_inv)
  then have s: "separated (length content) (safeRanges ?st)" by (simp add: scanInv_def)
  show ?thesis
  proof (cases "scanCtx ?st = Normal \<and> rangeStart ?st < length content")
    case True
    then have "\<forall>r\<in>set (safeRanges ?st). snd r < rangeStart ?st"
      using inv by (simp add: scanInv_def)
    then have "separated (length content) (safeRanges ?st @ [(rangeStart ?st, length content)])"
      using s True by (intro separated_snoc) auto
    then show ?thesis using True by (simp add: findSafeRanges_def Let_def)
  next
    case False
    then show ?thesis using s by (auto simp: findSafeRanges_def Let_def)
  qed
qed

lemma unsafeStarts_outside:
  assumes "separated n ranges" "u \<in> set (unsafeStarts content ranges)"
  shows "\<not> isInSafeRange u ranges"
proof (cases ranges)
  case Nil
  then show ?thesis by (simp add: isInSafeRange_def)
next
  case (Cons r0 rs)
  have sw: "sorted_wrt (\<lambda>a b. snd a < fst b) ranges"
    and ne: "\<forall>r\<in>set ranges. fst r < snd r"
    using assms(1) by (auto simp: separated_def)
  have "u \<in> set (if 0 < fst r0 then [0] else [])
         \<or> u \<in> set (map snd (filter (\<lambda>range. snd range < length content) ranges))"
    using assms(2) Cons by (simp add: unsafeStarts_def)
  then have "(u = 0 \<and> 0 < fst r0) \<or> (\<exists>r\<in>set ranges. u = snd r)"
    by (auto split: if_splits)
  then show ?thesis
  proof (elim disjE conjE bexE)
    assume zero: "u = 0" "0 < fst r0"
    have "\<forall>r\<in>set rs. snd r0 < fst r" using sw Cons by simp
    then have "\<forall>r\<in>set ranges. 0 < fst r" using zero(2) Cons by fastforce
    then show ?thesis using zero(1) by (auto simp: isInSafeRange_def list_ex_iff)
  next
    fix r assume anEnd: "r \<in> set ranges" "u = snd r"
    have "\<not> (fst x \<le> snd r \<and> snd r < snd x)" if "x \<in> set ranges" for x
      using sorted_wrt_two [OF sw that anEnd(1)] ne that anEnd(1) by fastforce
    then show ?thesis using anEnd(2) by (auto simp: isInSafeRange_def list_ex_iff)
  qed
qed

lemma scanStates_first: "st \<in> set (scanStates content st)"
  by (subst scanStates.simps) simp

lemma scanStates_closed:
  "s \<in> set (scanStates content st) \<Longrightarrow> pos s < length content \<Longrightarrow>
   scanStep content s \<in> set (scanStates content st)"
proof (induction content st rule: scanStates.induct)
  case (1 content st)
  show ?case
  proof (cases "pos st < length content")
    case True
    have unf: "scanStates content st = st # scanStates content (scanStep content st)"
      using True by (subst scanStates.simps) simp
    from "1.prems"(1) unf consider "s = st" | "s \<in> set (scanStates content (scanStep content st))"
      by auto
    then show ?thesis
    proof cases
      case 1
      then show ?thesis using unf scanStates_first [of "scanStep content st" content] by simp
    next
      case 2
      then show ?thesis using "1.IH" [OF True 2 "1.prems"(2)] unf by simp
    qed
  next
    case False
    then have "scanStates content st = [st]" by (subst scanStates.simps) simp
    then show ?thesis using "1.prems" False by simp
  qed
qed

lemma scanStep_safeRanges:
  "safeRanges (scanStep content st) = safeRanges st
   \<or> (scanCtx st = Normal \<and> safeRanges (scanStep content st) = safeRanges st @ [(rangeStart st, pos st)])"
  by (cases "scanCtx st") (auto simp: scanStep_def Let_def pushRange_def)

lemma scanStep_endsVisited:
  assumes "st \<in> T" "pos st < length content" "endsVisited content T st"
  shows "endsVisited content T (scanStep content st)"
  using scanStep_safeRanges [of content st] assms
  by (fastforce simp: endsVisited_def)

lemma scanLoop_endsVisited:
  "\<forall>s\<in>T. pos s < length content \<longrightarrow> scanStep content s \<in> T \<Longrightarrow>
   st \<in> T \<Longrightarrow> endsVisited content T st \<Longrightarrow> endsVisited content T (scanLoop content st)"
proof (induction content st rule: scanLoop.induct)
  case (1 content st)
  note closed = "1.prems"(1)
  show ?case
  proof (cases "pos st < length content")
    case True
    have "scanStep content st \<in> T" using closed True "1.prems"(2) by blast
    moreover have "endsVisited content T (scanStep content st)"
      using "1.prems"(2) True "1.prems"(3) by (rule scanStep_endsVisited)
    ultimately have "endsVisited content T (scanLoop content (scanStep content st))"
      using "1.IH" [OF True closed] by blast
    then show ?thesis using True by (subst scanLoop.simps) simp
  next
    case False
    then show ?thesis using "1.prems"(3) by (subst scanLoop.simps) simp
  qed
qed

lemma unsafeStart_visited:
  assumes u: "u \<in> set (unsafeStarts content (findSafeRanges content))"
    and run: "3 \<le> runLength (CHR 0x60) content u"
  shows "\<exists>s\<in>set (scanStates content initialScan).
           pos s = u \<and> scanCtx s = Normal \<and> scanCtx (scanStep content s) = FencedCode"
proof -
  let ?T = "set (scanStates content initialScan)"
  let ?fin = "scanLoop content initialScan"
  have ul: "u < length content"
  proof (rule ccontr)
    assume "\<not> u < length content"
    then have "drop u content = []" by simp
    then show False using run by (simp add: runLength_def)
  qed
  have cu: "content ! u = CHR 0x60"
  proof -
    have "takeWhile (\<lambda>x. x = CHR 0x60) (drop u content) \<noteq> []"
      using run by (auto simp: runLength_def)
    then have "hd (drop u content) = CHR 0x60"
      by (cases "drop u content") (auto split: if_splits)
    then show ?thesis using ul by (simp add: hd_drop_conv_nth)
  qed
  have opens: "scanCtx (scanStep content s) = FencedCode"
    if "pos s = u" "scanCtx s = Normal" for s
    using that cu run by (simp add: scanStep_def Let_def)
  have closed: "\<forall>s\<in>?T. pos s < length content \<longrightarrow> scanStep content s \<in> ?T"
    using scanStates_closed by blast
  have "endsVisited content ?T initialScan"
    by (simp add: endsVisited_def initialScan_def)
  then have ev: "endsVisited content ?T ?fin"
    using scanLoop_endsVisited [OF closed scanStates_first] by blast
  have "\<exists>s\<in>?T. pos s = u \<and> scanCtx s = Normal"
  proof (cases "\<exists>r\<in>set (safeRanges ?fin). u = snd r")
    case True
    then show ?thesis using ev by (fastforce simp: endsVisited_def)
  next
    case False
    have fr: "set (findSafeRanges content) \<subseteq> set (safeRanges ?fin) \<union> {(rangeStart ?fin, length content)}"
      by (auto simp: findSafeRanges_def Let_def split: if_splits)
    have "u = 0"
    proof (cases "findSafeRanges content")
      case Nil
      then show ?thesis using u by (auto simp: unsafeStarts_def split: if_splits)
    next
      case (Cons r0 rs)
      have "u \<in> set (if 0 < fst r0 then [0] else [])
         \<or> u \<in> set (map snd (filter (\<lambda>range. snd range < length content) (findSafeRanges content)))"
        using u Cons by (simp add: unsafeStarts_def)
      moreover have "u \<notin> set (map snd (filter (\<lambda>range. snd range < length content) (findSafeRanges content)))"
      proof
        assume "u \<in> set (map snd (filter (\<lambda>range. snd range < length content) (findSafeRanges content)))"
        then obtain r where r: "r \<in> set (findSafeRanges content)" "snd r < length content" "u = snd r"
          by auto
        then have "r \<in> set (safeRanges ?fin)" using fr by auto
        then show False using False r(3) by blast
      qed
      ultimately show ?thesis by (auto split: if_splits)
    qed
    have "pos initialScan = u \<and> scanCtx initialScan = Normal"
      using \<open>u = 0\<close> by (simp add: initialScan_def)
    then show ?thesis
      using scanStates_first [of initialScan content] by blast
  qed
  then show ?thesis using opens by blast
qed

lemma executableFenceAt_run:
  "executableFenceAt content p \<noteq> None \<Longrightarrow> 3 \<le> runLength (CHR 0x60) content p"
proof (rule ccontr)
  assume a: "executableFenceAt content p \<noteq> None" and "\<not> 3 \<le> runLength (CHR 0x60) content p"
  then have "runLength (CHR 0x60) content p - 2 = 0" by simp
  then show False using a by (simp add: executableFenceAt_def)
qed

subsection \<open>The parser on two documents\<close>

lemmas parser_eval =
  parseImports_def findSafeRanges_def initialScan_def scanStep_def runLength_def
  skipToNewline_def pushRange_def unsafeStarts_def isInSafeRange_def
  fileActions_def urlActions_def commandActions_def fenceActions_def
  fileImportAt_def urlImportAt_def commandInlineAt_def executableFenceAt_def
  fenceAttempt_def findBackticks_def charAt_def stringAt_def nonSpaceEnd_def
  substring_def matched_def isSpace_def parseFileImportPath_def isGlobPattern_def
  parseSymbolExtraction_def parseLineRange_def lastIndexOf_def fenceLanguage_def
  trim_def isLineTerminator_def orElse_def Let_def scanLoop.simps matchesFrom.simps

lemma overlap_example:
  "parseImports ''@./x@http://y''
     = [\<lparr>a_kind = FileImport ''./x@http://y'' None, a_original = ''@./x@http://y'', a_index = 0\<rparr>,
        \<lparr>a_kind = UrlImport ''http://y'', a_original = ''@http://y'', a_index = 4\<rparr>]"
  by (simp add: parser_eval)

lemma two_files_example:
  "parseImports ''@./a @./b''
     = [\<lparr>a_kind = FileImport ''./a'' None, a_original = ''@./a'', a_index = 0\<rparr>,
        \<lparr>a_kind = FileImport ''./b'' None, a_original = ''@./b'', a_index = 5\<rparr>]"
  by (simp add: parser_eval)

subsection \<open>Where directives begin\<close>

text \<open>
  What the parser guarantees relative to its own scan: each directive that is not an
  executable fence begins inside one of the safe ranges computed by findSafeRanges;
  each executable-fence directive begins at one of the unsafe starts, which is
  outside every safe range, and at that offset the scanning loop stands in normal
  context and opens a fenced block.
\<close>

lemma parseImports_safe:
  "\<forall>a\<in>set (parseImports content).
     (if isExecFence a
      then a_index a \<in> set (unsafeStarts content (findSafeRanges content))
           \<and> \<not> isInSafeRange (a_index a) (findSafeRanges content)
           \<and> (\<exists>s\<in>set (scanStates content initialScan).
                  pos s = a_index a \<and> scanCtx s = Normal
                \<and> scanCtx (scanStep content s) = FencedCode)
      else isInSafeRange (a_index a) (findSafeRanges content))"
proof
  fix a assume "a \<in> set (parseImports content)"
  then have "a \<in> set (allActions content)" by (simp add: parseImports_sorted_all)
  then consider "a \<in> set (fileActions content (findSafeRanges content))"
    | "a \<in> set (urlActions content (findSafeRanges content))"
    | "a \<in> set (commandActions content (findSafeRanges content))"
    | "a \<in> set (fenceActions content (unsafeStarts content (findSafeRanges content)))"
    by (auto simp: allActions_def)
  then show "if isExecFence a
      then a_index a \<in> set (unsafeStarts content (findSafeRanges content))
           \<and> \<not> isInSafeRange (a_index a) (findSafeRanges content)
           \<and> (\<exists>s\<in>set (scanStates content initialScan).
                  pos s = a_index a \<and> scanCtx s = Normal
                \<and> scanCtx (scanStep content s) = FencedCode)
      else isInSafeRange (a_index a) (findSafeRanges content)"
  proof cases
    case 1
    then show ?thesis using fileActions_props(3) by auto
  next
    case 2
    then show ?thesis using urlActions_props(3) by auto
  next
    case 3
    then show ?thesis using commandActions_props(3) by auto
  next
    case 4
    then have f: "isExecFence a"
      and u: "a_index a \<in> set (unsafeStarts content (findSafeRanges content))"
      using fenceActions_props(3) by auto
    have "executableFenceAt content (a_index a) \<noteq> None"
      using 4 fenceActions_props(2) by (auto simp: fromMatch_def)
    then have run: "3 \<le> runLength (CHR 0x60) content (a_index a)"
      by (rule executableFenceAt_run)
    show ?thesis
      using f u unsafeStarts_outside [OF findSafeRanges_separated u]
            unsafeStart_visited [OF u run]
      by simp
  qed
qed

text \<open>
  Claim C1 fails on the document \<open>nestedDoc\<close>. Its second line opens a fenced block
  that the fourth line closes, so that the offset 10, where the third line \<open>@./a\<close>
  begins, lies inside a fenced block. The scanning loop takes the three backticks in
  the middle of the first line for an opening fence and the second line for its
  closing fence: it returns the safe ranges 0 to 2 and 10 to 15, and parseImports
  returns a file directive at offset 10.
\<close>

theorem parseImports_inside_fence:
  "parseImports nestedDoc
     = [\<lparr>a_kind = FileImport ''./a'' None, a_original = ''@./a'', a_index = 10\<rparr>]
   \<and> findSafeRanges nestedDoc = [(0, 2), (10, 15)]
   \<and> specFencedLines None (splitOn NL nestedDoc) = [False, True, True, True, False]
   \<and> lineOf nestedDoc 10 = 2
   \<and> specInFencedBlock nestedDoc 10"
proof -
  have p: "parseImports nestedDoc
     = [\<lparr>a_kind = FileImport ''./a'' None, a_original = ''@./a'', a_index = 10\<rparr>]"
    by (simp add: nestedDoc_def parser_eval)
  have r: "findSafeRanges nestedDoc = [(0, 2), (10, 15)]"
    by (simp add: nestedDoc_def parser_eval)
  have s: "specFencedLines None (splitOn NL nestedDoc) = [False, True, True, True, False]"
    by (simp add: nestedDoc_def specFenceOpening_def specFenceClosing_def)
  have l: "lineOf nestedDoc 10 = 2"
    by (simp add: nestedDoc_def lineOf_def)
  have "specInFencedBlock nestedDoc 10"
    unfolding specInFencedBlock_def s l by (simp add: nestedDoc_def)
  then show ?thesis using p r s l by simp
qed

subsection \<open>Order and spans of the directives\<close>

text \<open>
  Claim C2, amended. For every body, the list returned by parseImports is strictly
  ascending by index; every directive lies inside the body and its original text is
  the body's text at its index; and two directives produced by the same pattern
  (file, URL, command or executable fence) do not overlap. Directives of different
  patterns may overlap.
\<close>

theorem parseImports_ordered:
  "sorted_wrt (<) (map a_index (parseImports content))
   \<and> (\<forall>a\<in>set (parseImports content).
          a_index a + length (a_original a) \<le> length content
        \<and> take (length (a_original a)) (drop (a_index a) content) = a_original a)
   \<and> (\<forall>a\<in>set (parseImports content). \<forall>b\<in>set (parseImports content).
          patternOf a = patternOf b \<and> a_index a < a_index b \<longrightarrow>
          a_index a + length (a_original a) \<le> a_index b)"
proof -
  have s: "set (parseImports content) = set (allActions content)"
    by (simp add: parseImports_sorted_all)
  have "sorted (map a_index (parseImports content))"
    by (simp add: parseImports_sorted_all)
  moreover have "distinct (map a_index (parseImports content))"
    using allActions_distinct [of content]
    by (simp add: parseImports_sorted_all distinct_map)
  ultimately have 1: "sorted_wrt (<) (map a_index (parseImports content))"
    by (simp add: strict_sorted_iff)
  have 2: "a_index a + length (a_original a) \<le> length content
        \<and> take (length (a_original a)) (drop (a_index a) content) = a_original a"
    if "a \<in> set (parseImports content)" for a
  proof -
    from that have "a \<in> set (allActions content)" by (simp add: s)
    then show ?thesis
      by (rule allActions_cases) (auto simp: onePattern_def)
  qed
  have 3: "a_index a + length (a_original a) \<le> a_index b"
    if "a \<in> set (parseImports content)" "b \<in> set (parseImports content)"
       "patternOf a = patternOf b" "a_index a < a_index b" for a b
  proof -
    from that have a: "a \<in> set (allActions content)" and b: "b \<in> set (allActions content)"
      by (simp_all add: s)
    from a show ?thesis
    proof (rule allActions_cases)
      fix k as
      assume o: "onePattern content k as" and m: "a \<in> set as" "patternOf a = k"
        and all: "\<And>b. b \<in> set (allActions content) \<Longrightarrow> patternOf b = k \<Longrightarrow> b \<in> set as"
      have "b \<in> set as" using all [OF b] that(3) m(2) by simp
      then show ?thesis
        using onePattern_apart [OF o m(1) _ that(4)] by (simp add: spanEnd_def)
    qed
  qed
  show ?thesis using 1 2 3 by blast
qed

theorem parseImports_ordered_witness:
  "parseImports ''@./a @./b''
     = [\<lparr>a_kind = FileImport ''./a'' None, a_original = ''@./a'', a_index = 0\<rparr>,
        \<lparr>a_kind = FileImport ''./b'' None, a_original = ''@./b'', a_index = 5\<rparr>]
   \<and> sorted_wrt (<) (map a_index (parseImports ''@./a @./b''))
   \<and> take 4 (drop 5 ''@./a @./b'') = ''@./b''
   \<and> (0::nat) + length ''@./a'' \<le> 5"
  using parseImports_ordered [of "''@./a @./b''"]
  by (simp add: two_files_example patternOf_def)

text \<open>
  The file pattern takes everything up to the next white space, so the file
  directive at 0 covers the URL directive at 4.
\<close>

theorem parseImports_overlap_counterexample:
  "a_index (parseImports ''@./x@http://y'' ! 0) < a_index (parseImports ''@./x@http://y'' ! 1)
   \<and> a_index (parseImports ''@./x@http://y'' ! 1)
       < a_index (parseImports ''@./x@http://y'' ! 0)
         + length (a_original (parseImports ''@./x@http://y'' ! 0))"
  by (simp add: overlap_example)

section \<open>Properties of injection\<close>

lemma length_splice:
  "r_end r \<le> length s \<Longrightarrow>
   int (length (splice s r)) = int (length s) + (int (length (r_content r)) - int (length (r_full r)))"
  by (auto simp: splice_def r_end_def)

lemma foldl_splice_length:
  "sorted_wrt (\<lambda>a b. r_end b \<le> r_index a) ds \<Longrightarrow>
   \<forall>d\<in>set ds. r_end d \<le> m \<Longrightarrow> m \<le> length s \<Longrightarrow>
   int (length (foldl splice s ds)) =
     int (length s) + (\<Sum>d\<leftarrow>ds. int (length (r_content d)) - int (length (r_full d)))"
proof (induction ds arbitrary: s m)
  case Nil
  then show ?case by simp
next
  case (Cons d ds)
  have e: "r_end d \<le> length s" using Cons.prems by auto
  have len: "int (length (splice s d)) =
     int (length s) + (int (length (r_content d)) - int (length (r_full d)))"
    using e by (rule length_splice)
  have "r_index d \<le> length (splice s d)"
    using e by (auto simp: splice_def r_end_def)
  moreover have "\<forall>x\<in>set ds. r_end x \<le> r_index d" using Cons.prems(1) by auto
  moreover have "sorted_wrt (\<lambda>a b. r_end b \<le> r_index a) ds" using Cons.prems(1) by auto
  ultimately have "int (length (foldl splice (splice s d) ds)) =
     int (length (splice s d)) + (\<Sum>x\<leftarrow>ds. int (length (r_content x)) - int (length (r_full x)))"
    using Cons.IH by blast
  with len show ?case by simp
qed

lemma sortedResolved_desc: "sorted (rev (map r_index (sortedResolved rs)))"
proof -
  have "sorted (map (\<lambda>r. - int (r_index r)) (sortedResolved rs))"
    unfolding sortedResolved_def by simp
  then have "sorted_wrt (\<lambda>a b. r_index b \<le> r_index a) (sortedResolved rs)"
    by (simp add: sorted_wrt_map)
  then have "sorted_wrt (\<lambda>a b. b \<le> a) (map r_index (sortedResolved rs))"
    by (simp add: sorted_wrt_map)
  then show ?thesis by (simp add: sorted_wrt_rev)
qed

lemma sortedResolved_chain:
  assumes dist: "distinct (map r_index rs)"
    and disj: "\<forall>a\<in>set rs. \<forall>b\<in>set rs. r_index a < r_index b \<longrightarrow> r_end a \<le> r_index b"
  shows "sorted_wrt (\<lambda>a b. r_end b \<le> r_index a) (sortedResolved rs)"
proof -
  let ?ds = "sortedResolved rs"
  have s1: "sorted_wrt (\<lambda>a b. r_index b \<le> r_index a) ?ds"
    using sorted_sort_key [of "\<lambda>r. - int (r_index r)" rs]
    by (simp add: sortedResolved_def sorted_wrt_map)
  have "distinct (map r_index ?ds)"
    using dist unfolding sortedResolved_def by (simp add: distinct_map inj_on_def) 
  then have s2: "sorted_wrt (\<lambda>a b. r_index a \<noteq> r_index b) ?ds"
    by (simp add: distinct_map sorted_wrt_map distinct_conv_nth sorted_wrt_iff_nth_less inj_on_def)
  have s3: "sorted_wrt (\<lambda>a b. a \<in> set rs \<and> b \<in> set rs) ?ds"
    by (simp add: sorted_wrt_iff_nth_less sortedResolved_def) (metis length_sort nth_mem set_sort order.strict_trans)
  have "sorted_wrt (\<lambda>a b. (r_index b \<le> r_index a \<and> r_index a \<noteq> r_index b) \<and> (a \<in> set rs \<and> b \<in> set rs)) ?ds"
    using s1 s2 s3 by (simp add: sorted_wrt_iff_nth_less)
  then show ?thesis
    by (rule sorted_wrt_mono_rel [rotated]) (use disj in auto)
qed

lemma sum_list_insort_key:
  "(\<Sum>d\<leftarrow>insort_key k x xs. f d) = (f x :: int) + (\<Sum>d\<leftarrow>xs. f d)"
  by (induction xs) auto

lemma sum_list_sortedResolved:
  "(\<Sum>d\<leftarrow>sortedResolved rs. f d) = (\<Sum>d\<leftarrow>rs. (f d :: int))"
  unfolding sortedResolved_def by (induction rs) (auto simp: sum_list_insort_key)

text \<open>
  Claim C3, as amended. When the spans of the resolved directives lie inside the body,
  start at pairwise different indices and do not overlap, the body produced by the
  injection phase has the length of the original body plus the sum over the resolved
  directives of (length of the replacement - length of the original). The replacements
  are applied in descending index order.
\<close>

theorem inject_length:
  assumes inb: "\<forall>r\<in>set rs. r_end r \<le> length body"
    and dist: "distinct (map r_index rs)"
    and disj: "\<forall>a\<in>set rs. \<forall>b\<in>set rs. r_index a < r_index b \<longrightarrow> r_end a \<le> r_index b"
  shows "int (length (injectResolvedImports body rs)) =
           int (length body) + (\<Sum>r\<leftarrow>rs. int (length (r_content r)) - int (length (r_full r)))
         \<and> sorted (rev (map r_index (sortedResolved rs)))
         \<and> injectResolvedImports body rs = foldl splice body (sortedResolved rs)"
proof -
  have "\<forall>d\<in>set (sortedResolved rs). r_end d \<le> length body"
    using inb by (simp add: sortedResolved_def)
  then have "int (length (foldl splice body (sortedResolved rs))) =
     int (length body) + (\<Sum>d\<leftarrow>sortedResolved rs. int (length (r_content d)) - int (length (r_full d)))"
    using sortedResolved_chain [OF dist disj] by (intro foldl_splice_length [where m = "length body"]) auto
  then show ?thesis
    by (simp add: injectResolvedImports_def sum_list_sortedResolved sortedResolved_desc)
qed

text \<open>
  Claim C3 as stated asks only that each original occurs at its index. The two
  directives the parser finds in \<open>@./x@http://y\<close> (a file import at 0 and a URL
  import at 4) satisfy that and overlap; injection then yields a body of length 1,
  while the formula gives -7.
\<close>

theorem inject_length_counterexample:
  "take (length ''@./x@http://y'') (drop 0 ''@./x@http://y'') = ''@./x@http://y''
   \<and> take (length ''@http://y'') (drop 4 ''@./x@http://y'') = ''@http://y''
   \<and> injectResolvedImports ''@./x@http://y''
        [\<lparr>r_index = 0, r_full = ''@./x@http://y'', r_content = ''A''\<rparr>,
         \<lparr>r_index = 4, r_full = ''@http://y'', r_content = ''B''\<rparr>] = ''A''
   \<and> int (length ''A'') \<noteq> int (length ''@./x@http://y'')
         + ((int (length ''A'') - int (length ''@./x@http://y''))
          + (int (length ''B'') - int (length ''@http://y'')))"
  by (simp add: injectResolvedImports_def sortedResolved_def splice_def)

theorem inject_length_witness:
  "int (length (injectResolvedImports ''see @./a and @./b''
        [\<lparr>r_index = 4, r_full = ''@./a'', r_content = ''AAAAAA''\<rparr>,
         \<lparr>r_index = 13, r_full = ''@./b'', r_content = ''''\<rparr>])) = 15
   \<and> injectResolvedImports ''see @./a and @./b''
        [\<lparr>r_index = 4, r_full = ''@./a'', r_content = ''AAAAAA''\<rparr>,
         \<lparr>r_index = 13, r_full = ''@./b'', r_content = ''''\<rparr>] = ''see AAAAAA and ''"
  using inject_length [of "[\<lparr>r_index = 4, r_full = ''@./a'', r_content = ''AAAAAA''\<rparr>,
         \<lparr>r_index = 13, r_full = ''@./b'', r_content = ''''\<rparr>]" "''see @./a and @./b''"]
  by (simp add: r_end_def sortedResolved_def splice_def)

section \<open>Properties of file imports\<close>

lemma follow_self_link: "fs p = Some (SymLink p) \<Longrightarrow> follow fs n p = None"
  by (induction n) auto

text \<open>
  Claim C4, as amended. A plain file import (no glob, symbol or line-range syntax)
  whose resolved path is a symbolic link pointing at itself fails with the
  import-not-found error that names the import path and the resolved path: the
  existence check comes before the canonical path is taken and before the cycle check.
  It never fails with the circular-import error.
\<close>

theorem self_symlink_not_found:
  assumes plain: "\<not> isGlobPattern importPath" "parseSymbolExtraction importPath = None"
                 "parseLineRange importPath = None"
    and link: "fs (resolveImportPath env importPath dir) = Some (SymLink (resolveImportPath env importPath dir))"
  shows "processFileImport (onFileSystem fs env) importPath dir stack
           = Inl (ImportNotFound importPath (resolveImportPath env importPath dir))
       \<and> (\<forall>chain. processFileImport (onFileSystem fs env) importPath dir stack
              \<noteq> Inl (CircularImport chain))"
proof -
  have r: "resolveImportPath (onFileSystem fs env) importPath dir = resolveImportPath env importPath dir"
    by (simp add: resolveImportPath_def expandTilde_def onFileSystem_def Let_def)
  have "\<not> fileExists (onFileSystem fs env) (resolveImportPath env importPath dir)"
    using link follow_self_link [of fs "resolveImportPath env importPath dir" MAXSYMLINKS]
    by (simp add: onFileSystem_def)
  then have "processFileImport (onFileSystem fs env) importPath dir stack
           = Inl (ImportNotFound importPath (resolveImportPath env importPath dir))"
    using plain by (simp add: processFileImport_def r Let_def)
  then show ?thesis by simp
qed

text \<open>
  The same conclusion does not depend on what the existence check answers for such a
  link: when \<open>realpathSync\<close> throws, toCanonicalPath falls back to the path itself,
  which is not on the stack.
\<close>

lemma no_cycle_without_realpath:
  assumes plain: "\<not> isGlobPattern importPath" "parseSymbolExtraction importPath = None"
                 "parseLineRange importPath = None"
    and "realpath env (resolveImportPath env importPath dir) = None"
    and "resolveImportPath env importPath dir \<notin> set stack"
    and "\<forall>c d s chain. expandImports env c d s \<noteq> Inl (CircularImport chain)"
  shows "processFileImport env importPath dir stack \<noteq> Inl (CircularImport chain)"
  using assms
  by (auto simp: processFileImport_def Let_def toCanonicalPath_def checkReadable_def
           split: option.splits if_splits)


theorem self_symlink_not_found_witness:
  "processFileImport
     (onFileSystem (\<lambda>p. if p = ''/home/u/loop.md'' then Some (SymLink ''/home/u/loop.md'')
                        else None)
        \<lparr>fileExists = (\<lambda>p. False), realpath = (\<lambda>p. None), fileSize = (\<lambda>p. 0),
         isBinaryFile = (\<lambda>p. False), fileText = (\<lambda>p. []), homedir = ''/home/u'',
         pathResolve = (\<lambda>d p. d @ drop 1 p), dirname = (\<lambda>p. ''/home/u''),
         exceedsLimit = (\<lambda>n. False), processGlobImport = (\<lambda>p d. Inr []),
         extractSymbol = (\<lambda>c s. Inr []), expandImports = (\<lambda>c d s. Inr c)\<rparr>)
     ''~/loop.md'' ''/work'' []
   = Inl (ImportNotFound ''~/loop.md'' ''/home/u/loop.md'')"
proof -
  let ?env = "\<lparr>fileExists = (\<lambda>p. False), realpath = (\<lambda>p. None), fileSize = (\<lambda>p. 0),
         isBinaryFile = (\<lambda>p. False), fileText = (\<lambda>p. []), homedir = ''/home/u'',
         pathResolve = (\<lambda>d p. d @ drop 1 p), dirname = (\<lambda>p. ''/home/u''),
         exceedsLimit = (\<lambda>n. False), processGlobImport = (\<lambda>p d. Inr []),
         extractSymbol = (\<lambda>c s. Inr []), expandImports = (\<lambda>c d s. Inr c)\<rparr>"
  let ?fs = "\<lambda>p. if p = ''/home/u/loop.md'' then Some (SymLink ''/home/u/loop.md'')
                        else None"
  have r: "resolveImportPath ?env ''~/loop.md'' ''/work'' = ''/home/u/loop.md''"
    by (simp add: resolveImportPath_def expandTilde_def startsWith_def)
  have p: "\<not> isGlobPattern ''~/loop.md''" "parseSymbolExtraction ''~/loop.md'' = None"
          "parseLineRange ''~/loop.md'' = None"
    by (simp_all add: isGlobPattern_def parseSymbolExtraction_def parseLineRange_def lastIndexOf_def)
  have l: "?fs (resolveImportPath ?env ''~/loop.md'' ''/work'')
             = Some (SymLink (resolveImportPath ?env ''~/loop.md'' ''/work''))"
    unfolding r by simp
  have "processFileImport (onFileSystem ?fs ?env) ''~/loop.md'' ''/work'' []
          = Inl (ImportNotFound ''~/loop.md'' (resolveImportPath ?env ''~/loop.md'' ''/work''))"
    using self_symlink_not_found [of "''~/loop.md''" ?fs ?env "''/work''" "[]"] p l
    by blast
  then show ?thesis unfolding r .
qed

text \<open>
  Claim C4 as stated: the import \<open>@./loop.md\<close> in \<open>/work/agent.md\<close>, where
  \<open>/work/loop.md\<close> links to itself, fails with the import-not-found error, not with
  the circular-import error.
\<close>

theorem self_symlink_counterexample:
  "processFileImport
     (onFileSystem (\<lambda>p. if p = ''/work/loop.md'' then Some (SymLink ''/work/loop.md'')
                        else if p = ''/work/agent.md'' then Some (RegularFile ''@./loop.md'')
                        else None)
        \<lparr>fileExists = (\<lambda>p. False), realpath = (\<lambda>p. None), fileSize = (\<lambda>p. 0),
         isBinaryFile = (\<lambda>p. False), fileText = (\<lambda>p. []), homedir = ''/home/u'',
         pathResolve = (\<lambda>d p. d @ drop 1 p), dirname = (\<lambda>p. ''/work''),
         exceedsLimit = (\<lambda>n. False), processGlobImport = (\<lambda>p d. Inr []),
         extractSymbol = (\<lambda>c s. Inr []), expandImports = (\<lambda>c d s. Inr c)\<rparr>)
     ''./loop.md'' ''/work'' [''/work/agent.md'']
   = Inl (ImportNotFound ''./loop.md'' ''/work/loop.md'')
   \<and> ImportNotFound ''./loop.md'' ''/work/loop.md''
       \<noteq> CircularImport [''/work/agent.md'', ''/work/loop.md'']"
proof -
  let ?fs = "\<lambda>p. if p = ''/work/loop.md'' then Some (SymLink ''/work/loop.md'')
                        else if p = ''/work/agent.md'' then Some (RegularFile ''@./loop.md'')
                        else None"
  have "follow ?fs MAXSYMLINKS ''/work/loop.md'' = None"
    by (rule follow_self_link) simp
  then show ?thesis
    by (simp add: processFileImport_def isGlobPattern_def parseSymbolExtraction_def
        parseLineRange_def lastIndexOf_def resolveImportPath_def expandTilde_def
        startsWith_def onFileSystem_def Let_def)
qed

section \<open>Properties of the interactive-mode switch\<close>

text \<open>
  Claim C5, as amended. One key governs: \<open>_interactive\<close> when it is present, else
  \<open>_i\<close>. applyInteractiveMode removes both keys and applies the adapter's interactive
  transform exactly when the external flag is set or the governing key is present with
  a value other than false (and other than undefined); otherwise it returns the front
  matter unchanged.
\<close>

theorem applyInteractiveMode_governing_key:
  "applyInteractiveMode getAdapter fm command ext =
     (if ext \<or> (case (case map_of fm ''_interactive'' of
                         Some v \<Rightarrow> Some v
                       | None \<Rightarrow> map_of fm ''_i'') of
                  None \<Rightarrow> False
                | Some v \<Rightarrow> v \<noteq> VBool False \<and> v \<noteq> VUndefined)
      then getAdapter command (deleteKey ''_i'' (deleteKey ''_interactive'' fm))
      else fm)"
proof -
  have k: "hasKey key fm \<longleftrightarrow> map_of fm key \<noteq> None" for key
    by (simp add: hasKey_def map_of_eq_None_iff)
  show ?thesis
    by (auto simp: applyInteractiveMode_def Let_def k getProp_def split: option.splits)
qed

theorem applyInteractiveMode_governing_key_witness:
  "applyInteractiveMode (\<lambda>c fm. (''adapted'', VStr c) # fm)
      [(''print'', VBool True), (''_i'', VNull :: nat jsval)] ''claude'' False
     = [(''adapted'', VStr ''claude''), (''print'', VBool True)]
   \<and> applyInteractiveMode (\<lambda>c fm. (''adapted'', VStr c) # fm)
      [(''print'', VBool True), (''_i'', VBool False :: nat jsval)] ''claude'' False
     = [(''print'', VBool True), (''_i'', VBool False)]"
  using applyInteractiveMode_governing_key [of "\<lambda>c fm. (''adapted'', VStr c) # fm"
          "[(''print'', VBool True), (''_i'', VNull :: nat jsval)]" "''claude''" False]
        applyInteractiveMode_governing_key [of "\<lambda>c fm. (''adapted'', VStr c) # fm"
          "[(''print'', VBool True), (''_i'', VBool False :: nat jsval)]" "''claude''" False]
  by (simp add: deleteKey_def)

text \<open>
  Claim C5 as stated activates interactive mode as soon as some \<open>_interactive\<close> or
  \<open>_i\<close> key is present and not false. With \<open>_interactive: false\<close> and
  \<open>_i: true\<close> the key \<open>_i\<close> is present and true, and the front matter is returned
  unchanged, both keys still in it.
\<close>

theorem applyInteractiveMode_counterexample:
  "hasKey ''_i'' [(''_interactive'', VBool False), (''_i'', VBool True :: nat jsval)]
   \<and> getProp ''_i'' [(''_interactive'', VBool False), (''_i'', VBool True :: nat jsval)] \<noteq> VBool False
   \<and> applyInteractiveMode (\<lambda>c fm. (''adapted'', VStr c) # fm)
        [(''_interactive'', VBool False), (''_i'', VBool True :: nat jsval)] ''claude'' False
      = [(''_interactive'', VBool False), (''_i'', VBool True)]"
  by (simp add: applyInteractiveMode_def hasKey_def getProp_def)

section \<open>Properties of inline commands\<close>

lemma strIncludes_iff: "strIncludes sub s \<longleftrightarrow> (\<exists>a b. s = a @ sub @ b)"
proof (induction s)
  case Nil
  then show ?case by auto
next
  case (Cons c cs)
  show ?case
  proof
    assume "strIncludes sub (c # cs)"
    then consider "take (length sub) (c # cs) = sub" | "strIncludes sub cs" by auto
    then show "\<exists>a b. c # cs = a @ sub @ b"
    proof cases
      case 1
      then have "c # cs = [] @ sub @ drop (length sub) (c # cs)"
        by (metis append_Nil append_take_drop_id)
      then show ?thesis by blast
    next
      case 2
      then obtain a b where "cs = a @ sub @ b" using Cons.IH by blast
      then have "c # cs = (c # a) @ sub @ b" by simp
      then show ?thesis by blast
    qed
  next
    assume "\<exists>a b. c # cs = a @ sub @ b"
    then obtain a b where ab: "c # cs = a @ sub @ b" by blast
    show "strIncludes sub (c # cs)"
    proof (cases a)
      case Nil
      then have "take (length sub) (c # cs) = sub" using ab by simp
      then show ?thesis by simp
    next
      case (Cons x xs)
      then have "cs = xs @ sub @ b" using ab by simp
      then have "strIncludes sub cs" using Cons.IH by blast
      then show ?thesis by simp
    qed
  qed
qed

lemma replaceAll_absent: "\<not> strIncludes pat s \<Longrightarrow> replaceAll pat rep s = s"
  by (induction s) auto

lemma exit_message_kept:
  "commandCatch cmd (''Command failed (Exit '' @ rest) = ''Command failed (Exit '' @ rest"
proof -
  have "strIncludes ''Exit '' (''Command failed (Exit '' @ rest)"
    unfolding strIncludes_iff
    by (rule exI [of _ "''Command failed (''"], rule exI [of _ rest]) simp
  then show ?thesis by (simp add: commandCatch_def)
qed

text \<open>
  Claim C6, as amended. Take an inline command that is executed (no dry run), whose
  shell is spawned, ends before the 30 s timer and writes no NUL byte in the first
  1024 bytes of its stdout, and let \<open>output\<close> be \<open>stderr + "\\n" + stdout\<close> when both
  streams are non-empty after trimming and ANSI stripping, else the non-empty one.
  With exit code zero the replacement is the empty string when \<open>output\<close> is empty,
  and otherwise the raw block around \<open>output\<close> truncated to 100,000 characters
  (with a marker) and with every \<open>{% endraw %}\<close> in it escaped: that is
  \<open>"{% raw %}\\n" + output + "\\n{% endraw %}"\<close> when \<open>output\<close> has at most 100,000
  characters and does not contain \<open>{% endraw %}\<close>. With any other exit code the
  resolution fails with the message made of the command line run, the exit code and
  stderr (or stdout if stderr is empty, or \<open>No output\<close> if both are).
\<close>

theorem processCommandInline_outcome:
  assumes ndry: "\<not> dryRun ctx"
    and sp: "spawn env (shellArgv env (actualCommandOf env command ctx)) (commandCwdOf dir ctx) = Inr proc"
    and nt: "\<not> timedOut proc"
    and nb: "CHR 0x00 \<notin> set (take 1024 (stdoutBytes proc))"
    and out: "stdout = stripAnsi env (trim (decode env (stdoutBytes proc)))"
    and err: "stderr = stripAnsi env (trim (decode env (stderrBytes proc)))"
    and outp: "output = (if stderr \<noteq> [] \<and> stdout \<noteq> [] then stderr @ [NL] @ stdout
                        else if stdout \<noteq> [] then stdout else stderr)"
  shows "(exitCode proc = Some 0 \<and> output \<noteq> [] \<and> length output \<le> 100000
            \<and> \<not> strIncludes ''{% endraw %}'' output \<longrightarrow>
          processCommandInline env command dir ctx
            = Inr (''{% raw %}'' @ [NL] @ output @ [NL] @ ''{% endraw %}''))
       \<and> (exitCode proc = Some 0 \<and> output = [] \<longrightarrow>
          processCommandInline env command dir ctx = Inr [])
       \<and> (exitCode proc = Some 0 \<and> output \<noteq> [] \<longrightarrow>
          processCommandInline env command dir ctx
            = Inr (''{% raw %}'' @ [NL]
                   @ replaceAll ''{% endraw %}'' endrawEscape
                       (if 100000 < length output
                        then take 100000 output @ [NL] @ ''... [Output truncated: ''
                             @ toLocaleString env (length output - 100000)
                             @ '' characters removed]''
                        else output)
                   @ [NL] @ ''{% endraw %}''))
       \<and> (exitCode proc \<noteq> Some 0 \<longrightarrow>
          processCommandInline env command dir ctx
            = Inl (''Command failed (Exit '' @ showExitCode (exitCode proc) @ ''): ''
                   @ actualCommandOf env command ctx @ [NL] @ ''Output: ''
                   @ (if stderr \<noteq> [] then stderr
                      else if stdout \<noteq> [] then stdout else ''No output'')))"
proof -
  let ?cmd = "actualCommandOf env command ctx"
  have pci: "processCommandInline env command dir ctx =
      (case commandTry env ?cmd proc of
         Inl m \<Rightarrow> Inl (commandCatch ?cmd m) | Inr r \<Rightarrow> Inr r)"
    using ndry sp by (simp add: processCommandInline_def Let_def)
  have o: "output = (if stderr \<noteq> [] \<and> stdout \<noteq> [] then stderr @ [NL] @ stdout
                     else orElse stdout (orElse stderr []))"
    using outp by (simp add: orElse_def)
  have fail: "exitCode proc \<noteq> Some 0 \<Longrightarrow> commandTry env ?cmd proc =
      Inl (''Command failed (Exit '' @ (showExitCode (exitCode proc) @ ''): ''
                   @ ?cmd @ [NL] @ ''Output: ''
                   @ (if stderr \<noteq> [] then stderr
                      else if stdout \<noteq> [] then stdout else ''No output'')))"
    using nt nb by (simp add: commandTry_def Let_def out [symmetric] err [symmetric] orElse_def)
  have ok: "exitCode proc = Some 0 \<Longrightarrow> commandTry env ?cmd proc =
      (if output = [] then Inr []
       else Inr (''{% raw %}'' @ [NL]
                   @ replaceAll ''{% endraw %}'' endrawEscape
                       (if 100000 < length output
                        then take 100000 output @ [NL] @ ''... [Output truncated: ''
                             @ toLocaleString env (length output - 100000)
                             @ '' characters removed]''
                        else output)
                   @ [NL] @ ''{% endraw %}''))"
    using nt nb
    by (simp add: commandTry_def Let_def out [symmetric] err [symmetric] o [symmetric]
          MAX_COMMAND_OUTPUT_SIZE_def)
  have c4: "exitCode proc \<noteq> Some 0 \<longrightarrow>
          processCommandInline env command dir ctx
            = Inl (''Command failed (Exit '' @ showExitCode (exitCode proc) @ ''): ''
                   @ ?cmd @ [NL] @ ''Output: ''
                   @ (if stderr \<noteq> [] then stderr
                      else if stdout \<noteq> [] then stdout else ''No output''))"
    using fail exit_message_kept by (simp add: pci)
  have c3: "exitCode proc = Some 0 \<and> output \<noteq> [] \<longrightarrow>
          processCommandInline env command dir ctx
            = Inr (''{% raw %}'' @ [NL]
                   @ replaceAll ''{% endraw %}'' endrawEscape
                       (if 100000 < length output
                        then take 100000 output @ [NL] @ ''... [Output truncated: ''
                             @ toLocaleString env (length output - 100000)
                             @ '' characters removed]''
                        else output)
                   @ [NL] @ ''{% endraw %}'')"
    using ok by (simp add: pci)
  have c2: "exitCode proc = Some 0 \<and> output = [] \<longrightarrow>
          processCommandInline env command dir ctx = Inr []"
    using ok by (simp add: pci)
  have c1: "exitCode proc = Some 0 \<and> output \<noteq> [] \<and> length output \<le> 100000
            \<and> \<not> strIncludes ''{% endraw %}'' output \<longrightarrow>
          processCommandInline env command dir ctx
            = Inr (''{% raw %}'' @ [NL] @ output @ [NL] @ ''{% endraw %}'')"
    using c3 by (simp add: replaceAll_absent)
  show ?thesis using c1 c2 c3 c4 by blast
qed


text \<open>
  Claim C6 as stated gives \<open>"{% raw %}\\n" + output + "\\n{% endraw %}"\<close> for every
  command that exits with code zero. A command that prints \<open>{% endraw %}\<close> exits
  with zero, and its replacement holds the escaped form instead of the output.
\<close>

theorem processCommandInline_counterexample:
  "processCommandInline
       \<lparr>substituteTemplateVars = (\<lambda>c vs. c), isWin = False,
        spawn = (\<lambda>argv cwd. Inr \<lparr>stdoutBytes = ''{% endraw %}'', stderrBytes = [],
                                     exitCode = Some 0, timedOut = False\<rparr>),
        decode = (\<lambda>s. s), stripAnsi = (\<lambda>s. s), toLocaleString = showNat\<rparr>
       ''cat notes'' ''/work''
       \<lparr>templateVars = None, dryRun = False, invocationCwd = None\<rparr>
     = Inr (''{% raw %}'' @ [NL] @ endrawEscape @ [NL] @ ''{% endraw %}'')
   \<and> endrawEscape \<noteq> ''{% endraw %}''"
  by (simp add: processCommandInline_def actualCommandOf_def processedCommandOf_def
        isMarkdownFileCommand_def trim_def isSpace_def shellArgv_def commandCwdOf_def
        commandTry_def commandCatch_def orElse_def endrawEscape_def MAX_COMMAND_OUTPUT_SIZE_def)


theorem processCommandInline_outcome_witness:
  "processCommandInline
       \<lparr>substituteTemplateVars = (\<lambda>c vs. c), isWin = False,
        spawn = (\<lambda>argv cwd. Inr \<lparr>stdoutBytes = ''main'', stderrBytes = ''warn '',
                                     exitCode = Some 0, timedOut = False\<rparr>),
        decode = (\<lambda>s. s), stripAnsi = (\<lambda>s. s), toLocaleString = showNat\<rparr>
       ''git branch'' ''/work''
       \<lparr>templateVars = None, dryRun = False, invocationCwd = None\<rparr>
     = Inr (''{% raw %}'' @ [NL] @ ''warn'' @ [NL] @ ''main'' @ [NL] @ ''{% endraw %}'')
   \<and> processCommandInline
       \<lparr>substituteTemplateVars = (\<lambda>c vs. c), isWin = False,
        spawn = (\<lambda>argv cwd. Inr \<lparr>stdoutBytes = ''partial'', stderrBytes = [],
                                     exitCode = Some 2, timedOut = False\<rparr>),
        decode = (\<lambda>s. s), stripAnsi = (\<lambda>s. s), toLocaleString = showNat\<rparr>
       ''git branch'' ''/work''
       \<lparr>templateVars = None, dryRun = False, invocationCwd = None\<rparr>
     = Inl (''Command failed (Exit 2): git branch'' @ [NL] @ ''Output: partial'')"
proof -
  let ?env1 = "\<lparr>substituteTemplateVars = (\<lambda>c vs. c), isWin = False,
        spawn = (\<lambda>argv cwd. Inr \<lparr>stdoutBytes = ''main'', stderrBytes = ''warn '',
                                     exitCode = Some 0, timedOut = False\<rparr>),
        decode = (\<lambda>s. s), stripAnsi = (\<lambda>s. s), toLocaleString = showNat\<rparr>"
  let ?env2 = "\<lparr>substituteTemplateVars = (\<lambda>c vs. c), isWin = False,
        spawn = (\<lambda>argv cwd. Inr \<lparr>stdoutBytes = ''partial'', stderrBytes = [],
                                     exitCode = Some 2, timedOut = False\<rparr>),
        decode = (\<lambda>s. s), stripAnsi = (\<lambda>s. s), toLocaleString = showNat\<rparr>"
  let ?ctx = "\<lparr>templateVars = None, dryRun = False, invocationCwd = None\<rparr>"
  have t: "trim ''warn '' = ''warn''" "trim ''main'' = ''main''" "trim ''partial'' = ''partial''"
          "trim [] = []"
    by (simp_all add: trim_def isSpace_def)
  have i: "\<not> strIncludes ''{% endraw %}'' (''warn'' @ [NL] @ ''main'')" by simp
  have a: "actualCommandOf e ''git branch'' ?ctx = ''git branch''" for e
    by (simp add: actualCommandOf_def processedCommandOf_def isMarkdownFileCommand_def
          trim_def isSpace_def)
  have s: "showExitCode (Some 2) = ''2''"
    by (simp add: showExitCode_def showInt_def digitChar_def)
  show ?thesis
    using processCommandInline_outcome [of ?ctx ?env1 "''git branch''" "''/work''"
            "\<lparr>stdoutBytes = ''main'', stderrBytes = ''warn '', exitCode = Some 0, timedOut = False\<rparr>"
            "''main''" "''warn''" "''warn'' @ [NL] @ ''main''"]
          processCommandInline_outcome [of ?ctx ?env2 "''git branch''" "''/work''"
            "\<lparr>stdoutBytes = ''partial'', stderrBytes = [], exitCode = Some 2, timedOut = False\<rparr>"
            "''partial''" "[]" "''partial''"]
    by (simp add: t i a s)
qed

section \<open>Properties of the argument compiler\<close>

lemma foldl_append_pairs:
  "foldl (\<lambda>a v. a @ [f, g v]) args vs = args @ concat (map (\<lambda>v. [f, g v]) vs)"
  by (induction vs arbitrary: args) auto

text \<open>
  Claim C7, as amended. buildArgs is the concatenation, in entry order, of what each
  front-matter entry emits. An entry emits nothing when its key is \<open>args\<close>, matches
  \<open>^\\$\\d+$\<close>, starts with \<open>$\<close> or \<open>_\<close>, or is in the template-variable set, and
  when its value is null, undefined or false (or is the object form of \<open>env\<close>); the
  value true emits the flag alone; a list emits the flag once per element, followed by
  the stringified element; any other value emits the flag followed by the stringified
  value. The flag of a key that starts with \<open>-\<close> is the key itself; otherwise it is
  \<open>-k\<close> for a one-character key and \<open>--key\<close> for every other key.
\<close>

theorem buildArgs_entry:
  "buildArgs ns [] tv = []
   \<and> buildArgs ns (fm @ [(k, v)]) tv = buildArgs ns fm tv @
       (if k = ''args'' \<or> isPositionalKey k \<or> startsWith ''$'' k \<or> startsWith ''_'' k \<or> k \<in> tv
        then []
        else if k = ''env'' \<and> (\<exists>m. v = VMap m) then []
        else (case v of
                VUndefined \<Rightarrow> []
              | VNull \<Rightarrow> []
              | VBool b \<Rightarrow> (if b then [toFlag k] else [])
              | VList vs \<Rightarrow> concat (map (\<lambda>x. [toFlag k, jsString ns x]) vs)
              | _ \<Rightarrow> [toFlag k, jsString ns v]))
   \<and> toFlag k = (if startsWith ''-'' k then k
                 else if length k = 1 then ''-'' @ k else ''--'' @ k)"
  by (cases v)
     (simp_all add: buildArgs_def buildArgsStep_def SYSTEM_KEYS_def isPlainObject_def
        foldl_append_pairs toFlag_def Let_def)

theorem buildArgs_entry_witness:
  "buildArgs (\<lambda>n::nat. ''7'') [(''model'', VStr ''opus''), (''p'', VBool True)] {}
     = [''--model'', ''opus'', ''-p'']
   \<and> buildArgs (\<lambda>n::nat. ''7'') [(''model'', VStr ''opus''), (''_x'', VBool True)] {}
     = [''--model'', ''opus'']
   \<and> buildArgs (\<lambda>n::nat. ''7'') [(''add-dir'', VList [VStr ''a'', VNum 3])] {}
     = [''--add-dir'', ''a'', ''--add-dir'', ''7'']"
  using buildArgs_entry [of "\<lambda>n::nat. ''7''" "{}" "[(''model'', VStr ''opus'')]" "''p''" "VBool True"]
        buildArgs_entry [of "\<lambda>n::nat. ''7''" "{}" "[]" "''model''" "VStr ''opus''"]
        buildArgs_entry [of "\<lambda>n::nat. ''7''" "{}" "[(''model'', VStr ''opus'')]" "''_x''" "VBool True"]
        buildArgs_entry [of "\<lambda>n::nat. ''7''" "{}" "[]" "''add-dir''" "VList [VStr ''a'', VNum 3]"]
  by (simp add: isPositionalKey_def startsWith_def)

text \<open>
  Claim C7 as stated renders every multi-character key as \<open>--key\<close>. The key \<open>-x\<close>
  has two characters and is emitted as \<open>-x\<close>, not as \<open>---x\<close>.
\<close>

theorem buildArgs_counterexample:
  "buildArgs (\<lambda>n::nat. ''7'') [(''-x'', VBool True)] {} = [''-x'']
   \<and> 1 < length ''-x''
   \<and> [''-x''] \<noteq> [''--'' @ ''-x'']"
  by (simp add: buildArgs_def buildArgsStep_def SYSTEM_KEYS_def isPositionalKey_def
        startsWith_def isPlainObject_def toFlag_def)

section \<open>Properties of config merging\<close>

subsection \<open>The store after a merge\<close>

lemma extends_refl: "extends n h h"
  by (simp add: extends_def)

lemma extends_trans: "extends n h1 h2 \<Longrightarrow> extends n h2 h3 \<Longrightarrow> extends n h1 h3"
  by (auto simp: extends_def)

lemma alloc_props:
  assumes "alloc c h = (a, h')"
  shows "a = nextAddr h" "nextAddr h' = Suc (nextAddr h)" "cells h' = (cells h)(nextAddr h \<mapsto> c)"
  using assms by (auto simp: alloc_def)

lemma alloc_extends: "n \<le> nextAddr h \<Longrightarrow> alloc c h = (a, h') \<Longrightarrow> extends n h h'"
  by (auto simp: alloc_def extends_def)

lemma setCommands_extends: "n \<le> r \<Longrightarrow> extends n h (setCommands r c h)"
  by (auto simp: setCommands_def extends_def)

lemma setCommand_extends: "n \<le> c \<Longrightarrow> extends n h (setCommand c cmd d h)"
  by (auto simp: setCommand_def extends_def Let_def)

lemma map_insertIndex_values:
  "map (\<lambda>e. (fst e, g (snd e))) (insertIndex k d es)
     = insertIndex k (g d) (map (\<lambda>e. (fst e, g (snd e))) es)"
  by (induction es) auto

lemma map_alist_update_values:
  "map (\<lambda>e. (fst e, g (snd e))) (AList.update k d es)
     = AList.update k (g d) (map (\<lambda>e. (fst e, g (snd e))) es)"
  by (induction es) auto

lemma map_update_values:
  "map (\<lambda>e. (fst e, g (snd e))) (defineProperty k d es)
     = defineProperty k (g d) (map (\<lambda>e. (fst e, g (snd e))) es)"
proof -
  have "map fst (map (\<lambda>e. (fst e, g (snd e))) es) = map fst es" by simp
  then show ?thesis
    by (simp add: defineProperty_def map_insertIndex_values map_alist_update_values del: map_map)
qed

lemma set_insertIndex: "set (insertIndex k v es) = insert (k, v) (set es)"
  by (induction es) auto





lemma foldl_update_values:
  "map (\<lambda>e. (fst e, g (snd e))) (foldl (\<lambda>obj kv. defineProperty (fst kv) (snd kv) obj) a b)
     = foldl (\<lambda>obj kv. defineProperty (fst kv) (snd kv) obj)
         (map (\<lambda>e. (fst e, g (snd e))) a) (map (\<lambda>e. (fst e, g (snd e))) b)"
  by (induction b arbitrary: a) (auto simp: map_update_values)

lemma objSpread_values:
  "map (\<lambda>e. (fst e, g (snd e))) (objSpread a b)
     = objSpread (map (\<lambda>e. (fst e, g (snd e))) a) (map (\<lambda>e. (fst e, g (snd e))) b)"
  by (simp add: objSpread_def foldl_update_values)

lemma set_update_subset: "set (defineProperty k d es) \<subseteq> insert (k, d) (set es)"
proof (cases "isArrayIndex k \<and> k \<notin> set (map fst es)")
  case True
  then show ?thesis by (simp add: defineProperty_def set_insertIndex)
next
  case False
  have "set (AList.update k d es) \<subseteq> insert (k, d) (set es)" by (induction es) auto
  then show ?thesis using False by (auto simp: defineProperty_def)
qed

lemma update_preserves_all:
  "list_all P es \<Longrightarrow> P (k, d) \<Longrightarrow> list_all P (defineProperty k d es)"
  using set_update_subset [of k d es] by (auto simp: list_all_iff)

text \<open>One step of either loop: a new defaults object is stored under a command name.\<close>

lemma freshCommandsE:
  assumes "freshCommands n h rc"
  obtains es where "cells h rc = Some (CommandsObj es None)" "n \<le> rc" "rc < nextAddr h"
    "\<forall>e\<in>set es. fst e \<noteq> ''__proto__'' \<and> n \<le> snd e \<and> snd e < nextAddr h \<and> isDefaultsObj h (snd e)"
proof (cases "cells h rc")
  case None
  with assms show ?thesis by (simp add: freshCommands_def)
next
  case (Some c)
  with assms show ?thesis
    by (cases c) (auto simp: freshCommands_def list_all_iff intro: that)
qed

lemma freshCommandsI:
  assumes "cells h rc = Some (CommandsObj es None)" "n \<le> rc" "rc < nextAddr h"
    "\<forall>e\<in>set es. fst e \<noteq> ''__proto__'' \<and> n \<le> snd e \<and> snd e < nextAddr h \<and> isDefaultsObj h (snd e)"
  shows "freshCommands n h rc"
  using assms by (simp add: freshCommands_def list_all_iff)

lemma isDefaultsObj_not_commands:
  "isDefaultsObj h d \<Longrightarrow> cells h rc = Some (CommandsObj es None) \<Longrightarrow> d \<noteq> rc"
  by (auto simp: isDefaultsObj_def)


text \<open>One step of either loop: a new defaults object is stored under a command name.\<close>

lemma store_entry:
  assumes inv: "freshCommands n h rc"
    and al: "alloc (DefaultsObj ps) h = (d, h1)"
    and h': "h' = setCommand rc cmd d h1"
    and cmd: "cmd \<noteq> ''__proto__''"
  shows "freshCommands n h' rc"
    and "onlyChanges rc h h'"
    and "readEntries h' rc = defineProperty cmd ps (readEntries h rc)"
proof -
  from inv obtain es where es: "cells h rc = Some (CommandsObj es None)"
    and rc: "n \<le> rc" "rc < nextAddr h"
    and all: "\<forall>e\<in>set es. fst e \<noteq> ''__proto__'' \<and> n \<le> snd e \<and> snd e < nextAddr h \<and> isDefaultsObj h (snd e)"
    by (rule freshCommandsE)
  have d: "d = nextAddr h" and n1: "nextAddr h1 = Suc (nextAddr h)"
    and c1: "cells h1 = (cells h)(nextAddr h \<mapsto> DefaultsObj ps)"
    using alloc_props [OF al] by auto
  have ce1: "commandEntries h1 rc = es" "commandsProto h1 rc = None"
    using es rc c1 by (simp_all add: commandEntries_def commandsProto_def)
  have c': "cells h' = (cells h)(nextAddr h \<mapsto> DefaultsObj ps, rc \<mapsto> CommandsObj (defineProperty cmd d es) None)"
    and n': "nextAddr h' = Suc (nextAddr h)"
    using h' c1 n1 ce1 cmd by (simp_all add: setCommand_def)
  have ne: "\<forall>e\<in>set es. snd e \<noteq> rc \<and> snd e \<noteq> nextAddr h"
    using all es isDefaultsObj_not_commands by fastforce
  have keep: "\<forall>e\<in>set es. cells h' (snd e) = cells h (snd e)"
    using ne c' by simp
  have old: "\<forall>e\<in>set es. fst e \<noteq> ''__proto__'' \<and> n \<le> snd e \<and> snd e < nextAddr h' \<and> isDefaultsObj h' (snd e)"
    using all keep n' by (auto simp: isDefaultsObj_def)
  have new: "cmd \<noteq> ''__proto__'' \<and> n \<le> d \<and> d < nextAddr h' \<and> isDefaultsObj h' d"
    using rc d c' n' cmd by (auto simp: isDefaultsObj_def)
  have "\<forall>e\<in>set (defineProperty cmd d es). fst e \<noteq> ''__proto__'' \<and> n \<le> snd e \<and> snd e < nextAddr h' \<and> isDefaultsObj h' (snd e)"
    using old new set_update_subset [of cmd d es] by auto
  then show "freshCommands n h' rc"
    using rc n' c' by (intro freshCommandsI [where es = "defineProperty cmd d es"]) auto
  show "onlyChanges rc h h'"
    using rc c' n' by (auto simp: onlyChanges_def)
  have same: "\<forall>e\<in>set es. defaultsProps h' (snd e) = defaultsProps h (snd e)"
    using keep by (simp add: defaultsProps_def)
  have "readEntries h' rc = map (\<lambda>e. (fst e, defaultsProps h' (snd e))) (defineProperty cmd d es)"
    using c' by (simp add: readEntries_def commandEntries_def)
  also have "\<dots> = defineProperty cmd (defaultsProps h' d) (map (\<lambda>e. (fst e, defaultsProps h' (snd e))) es)"
    by (rule map_update_values)
  also have "defaultsProps h' d = ps" using c' d rc by (simp add: defaultsProps_def)
  also have "map (\<lambda>e. (fst e, defaultsProps h' (snd e))) es = map (\<lambda>e. (fst e, defaultsProps h (snd e))) es"
    using same by simp
  also have "\<dots> = readEntries h rc" using es by (simp add: readEntries_def commandEntries_def)
  finally show "readEntries h' rc = defineProperty cmd ps (readEntries h rc)" .
qed


lemma onlyChanges_refl: "onlyChanges rc h h"
  by (simp add: onlyChanges_def)

lemma onlyChanges_trans: "onlyChanges rc h1 h2 \<Longrightarrow> onlyChanges rc h2 h3 \<Longrightarrow> onlyChanges rc h1 h3"
  by (auto simp: onlyChanges_def)

lemma onlyChanges_defaultsProps:
  "onlyChanges rc h h' \<Longrightarrow> a < nextAddr h \<Longrightarrow> a \<noteq> rc \<Longrightarrow> defaultsProps h' a = defaultsProps h a"
  by (simp add: onlyChanges_def defaultsProps_def)

lemma map_of_values:
  "map_of (map (\<lambda>e. (fst e, g (snd e))) es) k = map_option g (map_of es k)"
  by (induction es) auto

lemma cloneEntry_step:
  assumes "freshCommands n h rc" and "fst e \<noteq> ''__proto__''"
  shows "freshCommands n (cloneEntry rc h e) rc"
    and "onlyChanges rc h (cloneEntry rc h e)"
    and "readEntries (cloneEntry rc h e) rc
           = defineProperty (fst e) (objSpread [] (defaultsProps h (snd e))) (readEntries h rc)"
proof -
  obtain d h1 where al: "alloc (DefaultsObj (objSpread [] (defaultsProps h (snd e)))) h = (d, h1)"
    by (cases "alloc (DefaultsObj (objSpread [] (defaultsProps h (snd e)))) h") auto
  then have ce: "cloneEntry rc h e = setCommand rc (fst e) d h1"
    by (simp add: cloneEntry_def)
  show "freshCommands n (cloneEntry rc h e) rc"
    and "onlyChanges rc h (cloneEntry rc h e)"
    and "readEntries (cloneEntry rc h e) rc
           = defineProperty (fst e) (objSpread [] (defaultsProps h (snd e))) (readEntries h rc)"
    using store_entry [OF assms(1) al ce assms(2)] by auto
qed

lemma mergeEntry_step:
  assumes "freshCommands n h rc" and "fst e \<noteq> ''__proto__''"
  shows "freshCommands n (mergeEntry rc h e) rc"
    and "onlyChanges rc h (mergeEntry rc h e)"
    and "readEntries (mergeEntry rc h e) rc
           = defineProperty (fst e)
               (objSpread (objSpread [] (case map_of (readEntries h rc) (fst e) of
                                           Some x \<Rightarrow> x | None \<Rightarrow> []))
                          (defaultsProps h (snd e)))
               (readEntries h rc)"
proof -
  let ?existing = "existingProps h rc (fst e)"
  have "commandsProto h rc = None"
    using assms(1) by (rule freshCommandsE) (simp add: commandsProto_def)
  then have own: "?existing = (case map_of (commandEntries h rc) (fst e) of
                                 Some e \<Rightarrow> defaultsProps h e
                               | None \<Rightarrow> [])"
    by (simp add: existingProps_def split: option.splits)
  let ?ps = "objSpread (objSpread [] ?existing) (defaultsProps h (snd e))"
  have ex: "?existing = (case map_of (readEntries h rc) (fst e) of Some x \<Rightarrow> x | None \<Rightarrow> [])"
    unfolding own by (simp add: readEntries_def map_of_values split: option.splits)
  obtain d h1 where al: "alloc (DefaultsObj ?ps) h = (d, h1)"
    by (cases "alloc (DefaultsObj ?ps) h") auto
  then have ce: "mergeEntry rc h e = setCommand rc (fst e) d h1"
    by (simp add: mergeEntry_def)
  show "freshCommands n (mergeEntry rc h e) rc"
    and "onlyChanges rc h (mergeEntry rc h e)"
    and "readEntries (mergeEntry rc h e) rc
           = defineProperty (fst e)
               (objSpread (objSpread [] (case map_of (readEntries h rc) (fst e) of
                                           Some x \<Rightarrow> x | None \<Rightarrow> []))
                          (defaultsProps h (snd e)))
               (readEntries h rc)"
    using store_entry [OF assms(1) al ce assms(2)] unfolding ex by auto
qed

lemma freshCommands_bounds: "freshCommands n h rc \<Longrightarrow> n \<le> rc \<and> rc < nextAddr h"
  by (erule freshCommandsE) simp

lemma clone_loop:
  assumes "freshCommands n h rc" and "\<forall>e\<in>set cs. fst e \<noteq> ''__proto__'' \<and> snd e < n"
  shows "freshCommands n (foldl (cloneEntry rc) h cs) rc
       \<and> onlyChanges rc h (foldl (cloneEntry rc) h cs)
       \<and> readEntries (foldl (cloneEntry rc) h cs) rc
           = foldl (\<lambda>acc e. defineProperty (fst e) (objSpread [] (snd e)) acc) (readEntries h rc)
               (map (\<lambda>e. (fst e, defaultsProps h (snd e))) cs)"
  using assms
proof (induction cs arbitrary: h)
  case Nil
  then show ?case by (simp add: onlyChanges_refl)
next
  case (Cons e cs)
  let ?h1 = "cloneEntry rc h e"
  have pe: "fst e \<noteq> ''__proto__''" using Cons.prems(2) by simp
  note st = cloneEntry_step [OF Cons.prems(1) pe]
  have b: "n \<le> rc" "rc < nextAddr h" using freshCommands_bounds [OF Cons.prems(1)] by auto
  have same: "\<forall>x\<in>set cs. defaultsProps ?h1 (snd x) = defaultsProps h (snd x)"
    using Cons.prems(2) b st(2) by (auto intro!: onlyChanges_defaultsProps)
  have IH: "freshCommands n (foldl (cloneEntry rc) ?h1 cs) rc
       \<and> onlyChanges rc ?h1 (foldl (cloneEntry rc) ?h1 cs)
       \<and> readEntries (foldl (cloneEntry rc) ?h1 cs) rc
           = foldl (\<lambda>acc e. defineProperty (fst e) (objSpread [] (snd e)) acc) (readEntries ?h1 rc)
               (map (\<lambda>e. (fst e, defaultsProps ?h1 (snd e))) cs)"
    using Cons.IH [OF st(1)] Cons.prems(2) by simp
  have m: "map (\<lambda>e. (fst e, defaultsProps ?h1 (snd e))) cs = map (\<lambda>e. (fst e, defaultsProps h (snd e))) cs"
    using same by simp
  show ?case
    using IH st(2) st(3) onlyChanges_trans [OF st(2)] by (simp add: m)
qed

lemma merge_loop:
  assumes "freshCommands n h rc" and "\<forall>e\<in>set cs. fst e \<noteq> ''__proto__'' \<and> snd e < n"
  shows "freshCommands n (foldl (mergeEntry rc) h cs) rc
       \<and> onlyChanges rc h (foldl (mergeEntry rc) h cs)
       \<and> readEntries (foldl (mergeEntry rc) h cs) rc
           = foldl (\<lambda>acc e. defineProperty (fst e)
                                 (objSpread (objSpread [] (case map_of acc (fst e) of
                                                             Some x \<Rightarrow> x
                                                           | None \<Rightarrow> []))
                                            (snd e)) acc)
               (readEntries h rc)
               (map (\<lambda>e. (fst e, defaultsProps h (snd e))) cs)"
  using assms
proof (induction cs arbitrary: h)
  case Nil
  then show ?case by (simp add: onlyChanges_refl)
next
  case (Cons e cs)
  let ?h1 = "mergeEntry rc h e"
  have pe: "fst e \<noteq> ''__proto__''" using Cons.prems(2) by simp
  note st = mergeEntry_step [OF Cons.prems(1) pe]
  have b: "n \<le> rc" "rc < nextAddr h" using freshCommands_bounds [OF Cons.prems(1)] by auto
  have same: "\<forall>x\<in>set cs. defaultsProps ?h1 (snd x) = defaultsProps h (snd x)"
    using Cons.prems(2) b st(2) by (auto intro!: onlyChanges_defaultsProps)
  have IH: "freshCommands n (foldl (mergeEntry rc) ?h1 cs) rc
       \<and> onlyChanges rc ?h1 (foldl (mergeEntry rc) ?h1 cs)
       \<and> readEntries (foldl (mergeEntry rc) ?h1 cs) rc
           = foldl (\<lambda>acc e. defineProperty (fst e)
                                 (objSpread (objSpread [] (case map_of acc (fst e) of
                                                             Some x \<Rightarrow> x
                                                           | None \<Rightarrow> []))
                                            (snd e)) acc)
               (readEntries ?h1 rc)
               (map (\<lambda>e. (fst e, defaultsProps ?h1 (snd e))) cs)"
    using Cons.IH [OF st(1)] Cons.prems(2) by simp
  have m: "map (\<lambda>e. (fst e, defaultsProps ?h1 (snd e))) cs = map (\<lambda>e. (fst e, defaultsProps h (snd e))) cs"
    using same by simp
  show ?case
    using IH st(2) st(3) onlyChanges_trans [OF st(2)] by (simp add: m)
qed


lemma validConfigE:
  assumes "validConfig h a"
  obtains "a < nextAddr h" "cells h a = Some (ConfigObj None)"
  | cs es where "a < nextAddr h" "cells h a = Some (ConfigObj (Some cs))" "cs < nextAddr h"
      "cells h cs = Some (CommandsObj es None)"
      "\<forall>e\<in>set es. fst e \<noteq> ''__proto__'' \<and> snd e < nextAddr h \<and> isDefaultsObj h (snd e)"
proof (cases "cells h a")
  case None
  with assms show ?thesis by (simp add: validConfig_def)
next
  case (Some c)
  show ?thesis
  proof (cases c)
    case (ConfigObj x)
    show ?thesis
    proof (cases x)
      case None
      with assms Some ConfigObj show ?thesis by (auto simp: validConfig_def intro: that(1))
    next
      case (Some cs)
      note cs = Some
      show ?thesis
      proof (cases "cells h cs")
        case None
        with assms \<open>cells h a = Some c\<close> ConfigObj cs show ?thesis by (simp add: validConfig_def)
      next
        case (Some cc)
        with assms \<open>cells h a = Some c\<close> ConfigObj cs show ?thesis
          by (cases cc) (auto simp: validConfig_def list_all_iff intro: that(2))
      qed
    qed
  next
    case (CommandsObj x y)
    with assms Some show ?thesis by (simp add: validConfig_def)
  next
    case (DefaultsObj x)
    with assms Some show ?thesis by (simp add: validConfig_def)
  next
    case (ArrayObj x)
    with assms Some show ?thesis by (simp add: validConfig_def)
  qed
qed

lemma readConfig_alt: "readConfig h a = map_option (readEntries h) (getCommands h a)"
  by (cases "getCommands h a") (simp_all add: readConfig_def readEntries_def)

lemma extends_reads:
  assumes "extends n h h'" "a < n"
  shows "cells h' a = cells h a" "getCommands h' a = getCommands h a"
    "commandEntries h' a = commandEntries h a" "defaultsProps h' a = defaultsProps h a"
  using assms by (simp_all add: extends_def getCommands_def commandEntries_def defaultsProps_def)

lemma extends_readEntries:
  assumes "extends n h h'" "cs < n" "\<forall>e\<in>set (commandEntries h cs). snd e < n"
  shows "readEntries h' cs = readEntries h cs"
  using assms by (simp add: readEntries_def extends_reads)

lemma extends_readConfig:
  assumes "extends (nextAddr h) h h'" "validConfig h a"
  shows "readConfig h' a = readConfig h a"
  using assms(2)
proof (cases rule: validConfigE)
  case 1
  then show ?thesis using assms(1) by (simp add: readConfig_alt extends_reads getCommands_def)
next
  case (2 cs es)
  have g: "getCommands h' a = Some cs" "getCommands h a = Some cs"
    using 2 assms(1) by (simp_all add: extends_reads getCommands_def)
  have "readEntries h' cs = readEntries h cs"
    using assms(1) 2 by (intro extends_readEntries [where n = "nextAddr h"]) (auto simp: commandEntries_def)
  then show ?thesis by (simp add: readConfig_alt g)
qed

lemma deepCloneConfig_correct:
  assumes v: "validConfig h config" and dc: "deepCloneConfig h config = (r, h')"
  shows "r = nextAddr h"
    and "freshConfig (nextAddr h) h' r"
    and "extends (nextAddr h) h h'"
    and "readConfig h' r = clonedValue (readConfig h config)"
proof -
  let ?n = "nextAddr h"
  let ?h1 = "h\<lparr>cells := (cells h)(?n \<mapsto> ConfigObj None), nextAddr := Suc ?n\<rparr>"
  have a1: "alloc (ConfigObj None) h = (?n, ?h1)" by (simp add: alloc_def)
  have e1: "extends ?n h ?h1" by (simp add: extends_def)
  have cfg: "config < ?n" using v by (rule validConfigE)
  have g1: "getCommands ?h1 config = getCommands h config"
    using e1 cfg by (rule extends_reads)
  have "r = ?n \<and> freshConfig ?n h' r \<and> extends ?n h h'
        \<and> readConfig h' r = clonedValue (readConfig h config)"
    using v
  proof (cases rule: validConfigE)
    case 1
    then have gn: "getCommands h config = None" by (simp add: getCommands_def)
    then have res: "r = ?n" "h' = ?h1"
      using dc a1 g1 by (auto simp: deepCloneConfig_def)
    show ?thesis
      using res e1 gn
      by (simp add: freshConfig_def readConfig_alt getCommands_def clonedValue_def)
  next
    case (2 cs es)
    then have gs: "getCommands h config = Some cs" by (simp add: getCommands_def)
    let ?rc = "Suc ?n"
    let ?h2 = "?h1\<lparr>cells := (cells ?h1)(?rc \<mapsto> CommandsObj [] None), nextAddr := Suc ?rc\<rparr>"
    let ?h3 = "setCommands ?n ?rc ?h2"
    have a2: "alloc (CommandsObj [] None) ?h1 = (?rc, ?h2)" by (simp add: alloc_def)
    have e3: "extends ?n h ?h3" by (simp add: extends_def setCommands_def)
    have ce3: "commandEntries ?h3 cs = es"
      using 2 by (simp add: commandEntries_def setCommands_def)
    have res: "r = ?n" "h' = foldl (cloneEntry ?rc) ?h3 es"
      using dc a1 a2 g1 gs ce3 by (auto simp: deepCloneConfig_def Let_def)
    have f3: "freshCommands ?n ?h3 ?rc"
      by (simp add: freshCommands_def setCommands_def)
    have es: "\<forall>e\<in>set es. fst e \<noteq> ''__proto__'' \<and> snd e < ?n" using 2 by simp
    note loop = clone_loop [OF f3 es]
    have oc: "onlyChanges ?rc ?h3 h'" using loop res by simp
    have fr: "freshCommands ?n h' ?rc" using loop res by simp
    have r3: "readEntries ?h3 ?rc = []"
      by (simp add: readEntries_def commandEntries_def setCommands_def)
    have dp: "map (\<lambda>e. (fst e, defaultsProps ?h3 (snd e))) es = readEntries h cs"
      using es e3 2 by (simp add: readEntries_def commandEntries_def extends_reads)
    have re: "readEntries h' ?rc
           = foldl (\<lambda>acc e. defineProperty (fst e) (objSpread [] (snd e)) acc) [] (readEntries h cs)"
      using loop res r3 dp by simp
    have n3: "nextAddr ?h3 = Suc (Suc ?n)" by (simp add: setCommands_def)
    have cr: "cells h' ?n = Some (ConfigObj (Some ?rc))"
      using oc n3 by (simp add: onlyChanges_def setCommands_def)
    have lt: "?n < nextAddr h'" using oc n3 by (simp add: onlyChanges_def)
    have ext: "extends ?n h h'"
      using oc e3 n3 by (auto simp: onlyChanges_def extends_def)
    show ?thesis
      using res(1) cr lt fr ext re gs
      by (simp add: freshConfig_def readConfig_alt getCommands_def clonedValue_def)
  qed
  then show "r = nextAddr h"
    and "freshConfig (nextAddr h) h' r"
    and "extends (nextAddr h) h h'"
    and "readConfig h' r = clonedValue (readConfig h config)"
    by auto
qed


lemma set_objSpread_subset: "set (objSpread a b) \<subseteq> set a \<union> set b"
proof -
  have "set (foldl (\<lambda>obj kv. defineProperty (fst kv) (snd kv) obj) a b) \<subseteq> set a \<union> set b"
  proof (induction b arbitrary: a)
    case Nil
    then show ?case by simp
  next
    case (Cons x b)
    have "set (defineProperty (fst x) (snd x) a) \<subseteq> insert x (set a)"
      using set_update_subset [of "fst x" "snd x" a] by simp
    with Cons.IH [of "defineProperty (fst x) (snd x) a"] show ?case by auto
  qed
  then show ?thesis by (simp add: objSpread_def)
qed

lemma freshConfigE:
  assumes "freshConfig n h r"
  obtains "n \<le> r" "r < nextAddr h" "cells h r = Some (ConfigObj None)"
  | rc where "n \<le> r" "r < nextAddr h" "cells h r = Some (ConfigObj (Some rc))" "freshCommands n h rc"
proof (cases "cells h r")
  case None
  with assms show ?thesis by (simp add: freshConfig_def)
next
  case (Some c)
  show ?thesis
  proof (cases c)
    case (ConfigObj x)
    with assms Some show ?thesis
      by (cases x) (auto simp: freshConfig_def intro: that)
  next
    case (CommandsObj x y)
    with assms Some show ?thesis by (simp add: freshConfig_def)
  next
    case (DefaultsObj x)
    with assms Some show ?thesis by (simp add: freshConfig_def)
  next
    case (ArrayObj x)
    with assms Some show ?thesis by (simp add: freshConfig_def)
  qed
qed

lemma mergeConfigs_correct:
  assumes vb: "validConfig h base" and vo: "validConfig h override"
    and mc: "mergeConfigs h base override = (r, h')"
  shows "r = nextAddr h"
    and "freshConfig (nextAddr h) h' r"
    and "extends (nextAddr h) h h'"
    and "readConfig h' r = mergedValue (readConfig h base) (readConfig h override)"
proof -
  let ?n = "nextAddr h"
  obtain r1 h1 where dc: "deepCloneConfig h base = (r1, h1)"
    by (cases "deepCloneConfig h base") auto
  note d = deepCloneConfig_correct [OF vb dc]
  have ov: "override < ?n" using vo by (rule validConfigE)
  have g1: "getCommands h1 override = getCommands h override"
    using d(3) ov by (rule extends_reads)
  have n1: "?n \<le> nextAddr h1" using d(3) by (simp add: extends_def)
  have "r = ?n \<and> freshConfig ?n h' r \<and> extends ?n h h'
        \<and> readConfig h' r = mergedValue (readConfig h base) (readConfig h override)"
    using vo
  proof (cases rule: validConfigE)
    case 1
    then have gn: "getCommands h override = None" by (simp add: getCommands_def)
    then have res: "r = r1" "h' = h1"
      using mc dc g1 by (auto simp: mergeConfigs_def)
    have "readConfig h override = None" using gn by (simp add: readConfig_alt)
    then show ?thesis using res d by (simp add: mergedValue_def)
  next
    case (2 ocs oes)
    then have gs: "getCommands h override = Some ocs" by (simp add: getCommands_def)
    define init where "init = (case getCommands h1 r1 of
                   Some c \<Rightarrow> objSpread [] (commandEntries h1 c)
                 | None \<Rightarrow> [])"
    let ?rc = "nextAddr h1"
    let ?h2 = "h1\<lparr>cells := (cells h1)(?rc \<mapsto> CommandsObj init None), nextAddr := Suc ?rc\<rparr>"
    let ?h3 = "setCommands r1 ?rc ?h2"
    have a2: "alloc (CommandsObj (case getCommands h1 r1 of
                   Some c \<Rightarrow> objSpread [] (commandEntries h1 c)
                 | None \<Rightarrow> []) None) h1 = (?rc, ?h2)" by (simp add: alloc_def init_def)
    have r1eq: "r1 = ?n" using d(1) .
    have r1: "?n \<le> r1" "r1 < ?rc"
      using d(2) by (auto elim: freshConfigE)
    have c3: "cells ?h3 = (cells h1)(?rc \<mapsto> CommandsObj init None, r1 \<mapsto> ConfigObj (Some ?rc))"
      and n3: "nextAddr ?h3 = Suc ?rc"
      by (simp_all add: setCommands_def)
    have e13: "extends ?n h1 ?h3"
      using r1 n1 by (auto simp: extends_def c3 n3)
    have e3: "extends ?n h ?h3" using d(3) e13 by (rule extends_trans)
    have ce3: "commandEntries ?h3 ocs = oes"
      using e3 2 by (simp add: extends_reads commandEntries_def)
    have res: "r = r1" "h' = foldl (mergeEntry ?rc) ?h3 oes"
      using mc dc a2 g1 gs ce3 by (auto simp: mergeConfigs_def Let_def)
    have init: "(\<forall>e\<in>set init. fst e \<noteq> ''__proto__'' \<and> ?n \<le> snd e \<and> snd e < nextAddr h1 \<and> isDefaultsObj h1 (snd e))
                \<and> map (\<lambda>e. (fst e, defaultsProps h1 (snd e))) init
                    = (case readConfig h1 r1 of Some c \<Rightarrow> objSpread [] c | None \<Rightarrow> [])"
      using d(2)
    proof (cases rule: freshConfigE)
      case 1
      then show ?thesis by (simp add: getCommands_def readConfig_alt init_def)
    next
      case (2 c)
      then have g: "getCommands h1 r1 = Some c" by (simp add: getCommands_def)
      from 2(4) obtain es where es: "cells h1 c = Some (CommandsObj es None)"
        and all: "\<forall>e\<in>set es. fst e \<noteq> ''__proto__'' \<and> ?n \<le> snd e \<and> snd e < nextAddr h1 \<and> isDefaultsObj h1 (snd e)"
        by (rule freshCommandsE)
      have "set (objSpread [] es) \<subseteq> set es" using set_objSpread_subset [of "[]" es] by simp
      then have "\<forall>e\<in>set (objSpread [] es). fst e \<noteq> ''__proto__'' \<and> ?n \<le> snd e \<and> snd e < nextAddr h1 \<and> isDefaultsObj h1 (snd e)"
        using all by blast
      moreover have "map (\<lambda>e. (fst e, defaultsProps h1 (snd e))) (objSpread [] es)
                       = objSpread [] (readEntries h1 c)"
        using es by (simp add: objSpread_values readEntries_def commandEntries_def)
      ultimately show ?thesis using g es by (simp add: readConfig_alt commandEntries_def init_def)
    qed
    have keep: "\<forall>e\<in>set init. cells ?h3 (snd e) = cells h1 (snd e)"
    proof
      fix e assume "e \<in> set init"
      then have e: "snd e < nextAddr h1" "isDefaultsObj h1 (snd e)" using init by auto
      have "cells h1 r1 \<noteq> None \<and> \<not> isDefaultsObj h1 r1"
        using d(2) by (auto simp: isDefaultsObj_def elim!: freshConfigE)
      then have "snd e \<noteq> r1" using e by auto
      then show "cells ?h3 (snd e) = cells h1 (snd e)" using e by (simp add: c3)
    qed
    have f3: "freshCommands ?n ?h3 ?rc"
    proof (rule freshCommandsI [where es = init])
      show "cells ?h3 ?rc = Some (CommandsObj init None)" using r1 by (simp add: c3)
      show "?n \<le> ?rc" by (rule n1)
      show "?rc < nextAddr ?h3" by (simp add: n3)
      show "\<forall>e\<in>set init. fst e \<noteq> ''__proto__'' \<and> ?n \<le> snd e \<and> snd e < nextAddr ?h3 \<and> isDefaultsObj ?h3 (snd e)"
        using init keep unfolding n3 isDefaultsObj_def by auto
    qed
    have r3: "readEntries ?h3 ?rc = (case readConfig h1 r1 of Some c \<Rightarrow> objSpread [] c | None \<Rightarrow> [])"
    proof -
      have "commandEntries ?h3 ?rc = init" using r1 by (simp add: commandEntries_def c3)
      then have "readEntries ?h3 ?rc = map (\<lambda>e. (fst e, defaultsProps ?h3 (snd e))) init"
        by (simp add: readEntries_def)
      also have "\<dots> = map (\<lambda>e. (fst e, defaultsProps h1 (snd e))) init"
        using keep by (simp add: defaultsProps_def)
      finally show ?thesis using init by simp
    qed
    have oes: "\<forall>e\<in>set oes. fst e \<noteq> ''__proto__'' \<and> snd e < ?n" using 2 by simp
    note loop = merge_loop [OF f3 oes]
    have oc: "onlyChanges ?rc ?h3 h'" using loop res by simp
    have fr: "freshCommands ?n h' ?rc" using loop res by simp
    have dp: "map (\<lambda>e. (fst e, defaultsProps ?h3 (snd e))) oes = readEntries h ocs"
      using oes e3 2 by (simp add: readEntries_def commandEntries_def extends_reads)
    have re: "readEntries h' ?rc
           = foldl (\<lambda>acc e. defineProperty (fst e)
                                 (objSpread (objSpread [] (case map_of acc (fst e) of
                                                             Some x \<Rightarrow> x
                                                           | None \<Rightarrow> []))
                                            (snd e)) acc)
               (case clonedValue (readConfig h base) of Some c \<Rightarrow> objSpread [] c | None \<Rightarrow> [])
               (readEntries h ocs)"
      using loop res r3 dp d(4) by simp
    have cr: "cells h' r1 = Some (ConfigObj (Some ?rc))"
      using oc r1 by (simp add: onlyChanges_def c3 n3)
    have lt: "r1 < nextAddr h'" using oc r1 n3 by (simp add: onlyChanges_def)
    have ext: "extends ?n h h'"
      using oc e3 n1 n3 by (auto simp: onlyChanges_def extends_def)
    have ro: "readConfig h override = Some (readEntries h ocs)"
      using gs by (simp add: readConfig_alt)
    have rr: "readConfig h' r1 = Some (readEntries h' ?rc)"
      using cr by (simp add: readConfig_alt getCommands_def)
    have mv: "mergedValue (readConfig h base) (readConfig h override) = Some (readEntries h' ?rc)"
      unfolding ro re by (simp add: mergedValue_def)
    have fc: "freshConfig ?n h' r1"
      using r1(1) lt cr fr by (simp add: freshConfig_def)
    show ?thesis
      using res(1) r1eq fc ext rr mv by simp
  qed
  then show "r = nextAddr h"
    and "freshConfig (nextAddr h) h' r"
    and "extends (nextAddr h) h h'"
    and "readConfig h' r = mergedValue (readConfig h base) (readConfig h override)"
    by auto
qed

subsection \<open>The merged value as a mapping\<close>























subsection \<open>Associativity and absence of side effects\<close>



text \<open>
  What mergeConfigs guarantees for its arguments: it changes no object that existed
  before the call, so that \<open>base\<close> and \<open>override\<close> read as before, and the config
  it returns, the commands object of that config and every per-command object in it
  are objects allocated by the call.
\<close>

lemma mergeConfigs_fresh_objects:
  assumes "validConfig h base" "validConfig h override"
  shows "case mergeConfigs h base override of
           (r, h') \<Rightarrow>
             (\<forall>a<nextAddr h. cells h' a = cells h a)
           \<and> readConfig h' base = readConfig h base
           \<and> readConfig h' override = readConfig h override
           \<and> freshConfig (nextAddr h) h' r"
proof -
  obtain r h' where mc: "mergeConfigs h base override = (r, h')"
    by (cases "mergeConfigs h base override") auto
  note c = mergeConfigs_correct [OF assms mc]
  have 1: "\<forall>a<nextAddr h. cells h' a = cells h a" using c(3) by (simp add: extends_def)
  have 2: "readConfig h' base = readConfig h base" "readConfig h' override = readConfig h override"
    using c(3) assms by (simp_all add: extends_readConfig)
  show ?thesis using mc 1 2 c(2) by simp
qed








lemmas config_eval =
  mergeLeft_def mergeRight_def mergeConfigs_def deepCloneConfig_def alloc_def getCommands_def
  commandEntries_def commandsProto_def setCommands_def cloneEntry_def mergeEntry_def
  setCommand_def existingProps_def spreadValue_def objectProps_def defaultsProps_def
  objSpread_def defineProperty_def isArrayIndex_def isDigit_def readConfig_def
  valueAt_def arrayAt_def pushAt_def Let_def


text \<open>
  Claim C9 fails on the base config \<open>{"commands": {"claude": {"add-dir": ["a"]}}}\<close>
  merged with \<open>{}\<close>. The call itself leaves the base as it was, but
  \<open>{ ...defaults }\<close> copies the reference to the array, so that the result and the
  base hold the same array object: after \<open>result.commands.claude["add-dir"].push("b")\<close>
  the base reads \<open>["a", "b"]\<close>. Mutating the result alters the input.
\<close>

theorem mergeConfigs_shares_values:
  "arrayAt arrayStore 0 ''claude'' ''add-dir'' = Some [StrV ''a'']
   \<and> arrayAt (snd (mergeConfigs arrayStore 0 4)) 0 ''claude'' ''add-dir'' = Some [StrV ''a'']
   \<and> arrayAt (pushAt (snd (mergeConfigs arrayStore 0 4)) (fst (mergeConfigs arrayStore 0 4))
                ''claude'' ''add-dir'' (StrV ''b''))
          0 ''claude'' ''add-dir''
       = Some [StrV ''a'', StrV ''b'']"
  by (simp add: arrayStore_def config_eval)

section \<open>Properties of line-range extraction\<close>

lemma slice_nonneg:
  assumes "0 \<le> a" "0 \<le> b" "b \<le> int (length xs)"
  shows "slice xs a b = take (nat b - nat a) (drop (nat a) xs)"
proof (cases "nat a \<le> length xs")
  case True
  with assms show ?thesis by (simp add: slice_def relIndex_def Let_def min_def)
next
  case False
  with assms have "nat b \<le> nat a" by linarith
  with False assms show ?thesis by (simp add: slice_def relIndex_def Let_def min_def)
qed

lemma slice_upto:
  assumes "0 \<le> a" "0 \<le> b" "b \<le> int (length xs)"
  shows "slice xs a b = map (\<lambda>k. xs ! nat (k - 1)) [a + 1 .. b]"
proof (rule nth_equalityI)
  have "nat b \<le> length xs" using assms by linarith
  then have "length (slice xs a b) = nat b - nat a"
    using assms by (simp add: slice_nonneg)
  moreover have "nat b - nat a = nat (b - a)" using assms by linarith
  ultimately show "length (slice xs a b) = length (map (\<lambda>k. xs ! nat (k - 1)) [a + 1 .. b])"
    by simp
next
  fix i assume "i < length (slice xs a b)"
  then have i: "i < nat b - nat a"
    using assms by (simp add: slice_nonneg)
  then have ib: "int i < b - a" "nat a + i < length xs" using assms by linarith+
  have "slice xs a b ! i = xs ! (nat a + i)"
    using assms i ib by (simp add: slice_nonneg)
  moreover have "[a + 1 .. b] ! i = a + 1 + int i"
    using ib by (intro nth_upto) simp
  moreover have "i < length [a + 1 .. b]" using ib by simp
  moreover have "nat (a + int i) = nat a + i" using assms by linarith
  ultimately show "slice xs a b ! i = map (\<lambda>k. xs ! nat (k - 1)) [a + 1 .. b] ! i"
    by simp
qed

text \<open>
  Claim C10. For every content and every range \<open>start..end\<close> (with \<open>end\<close> not
  negative, as the line-range pattern \<open>:(\\d+)-(\\d+)\<close> guarantees), extractLines
  returns the lines numbered \<open>max 1 start\<close> through \<open>min lineCount end\<close>
  (1-indexed, inclusive) joined by newlines, and the empty string when that clamped
  range is empty. No input raises: the function is total.
\<close>

theorem extractLines_clamps:
  assumes "0 \<le> end"
  shows "extractLines content start end =
           joinWith [NL] (map (\<lambda>k. splitOn NL content ! nat (k - 1))
                              [max 1 start .. min (int (length (splitOn NL content))) end])
       \<and> (min (int (length (splitOn NL content))) end < max 1 start \<longrightarrow>
            extractLines content start end = [])"
proof -
  let ?ls = "splitOn NL content"
  have "slice ?ls (max 0 (start - 1)) (min (int (length ?ls)) end)
        = map (\<lambda>k. ?ls ! nat (k - 1)) [max 0 (start - 1) + 1 .. min (int (length ?ls)) end]"
    using assms by (intro slice_upto) auto
  moreover have "max 0 (start - 1) + 1 = max 1 start" by auto
  ultimately have main: "extractLines content start end =
           joinWith [NL] (map (\<lambda>k. ?ls ! nat (k - 1)) [max 1 start .. min (int (length ?ls)) end])"
    by (simp add: extractLines_def Let_def)
  then show ?thesis by auto
qed

theorem extractLines_clamps_witness:
  "extractLines [CHR ''a'', NL, CHR ''b'', NL, CHR ''c''] 2 7 = [CHR ''b'', NL, CHR ''c'']
   \<and> extractLines [CHR ''a'', NL, CHR ''b'', NL, CHR ''c''] 5 9 = []"
  using extractLines_clamps [of 7 "[CHR ''a'', NL, CHR ''b'', NL, CHR ''c'']" 2]
        extractLines_clamps [of 9 "[CHR ''a'', NL, CHR ''b'', NL, CHR ''c'']" 5]
  by (simp add: upto.simps)

end
